theory Spec2Isabelle
  imports Complex_Main "HOL-Library.Monad_Syntax"
begin

section \<open>Tauchen discretisation of an AR(1) process: the function \<open>ar1\<close>\<close>

text \<open>
  The function \<open>ar1\<close> of \<^verbatim>\<open>Thrust/ar1.cpp\<close> fills a grid \<open>Z\<close> of \<open>nz\<close> levels
  and an \<open>nz \<times> nz\<close> transition matrix \<open>P\<close>, stored as a flat vector with the entry
  from state \<open>i\<close> to state \<open>j\<close> at index \<open>i + nz * j\<close>.

  The embedding is over exact arithmetic: the floating-point type \<open>REAL\<close> is the type
  \<open>real\<close>, so rounding, underflow, infinities and NaN are not represented; what the
  program does with them is outside this theory. The C type \<open>int\<close> has 32 bits: the
  result of an \<open>int\<close> operation outside \<open>INT_MIN..INT_MAX\<close> is undefined behaviour in
  the program and the result \<open>None\<close> here. The two \<open>thrust::device_vector<REAL>\<close>
  arguments are lists of reals that are passed in and returned; an access outside a
  vector, which is undefined behaviour too, is also the result \<open>None\<close>.
\<close>

subsection \<open>Data model\<close>

text \<open>
  Modelled from the spec: the header \<^verbatim>\<open>global.h\<close>, which declares the class
  \<open>parameters\<close> and the type \<open>REAL\<close>, is not among the sources. The record has the five
  fields that \<open>ar1\<close> reads, with the types of the local constants they initialise.
\<close>

record parameters =
  nz :: int
  mu :: real
  rho :: real
  sigma :: real
  lambda :: real

text \<open>
  The C type \<open>int\<close>: \<open>c_int x\<close> is the result of an operation whose mathematical value
  is \<open>x\<close>, and \<open>idx ix n jx\<close> is the index expression \<open>ix + n*jx\<close>, a product and
  a sum of \<open>int\<close>s.
\<close>

definition INT_MAX :: int where
  "INT_MAX = 2147483647"

definition INT_MIN :: int where
  "INT_MIN = - 2147483648"

definition c_int :: "int \<Rightarrow> int option" where
  "c_int x = (if INT_MIN \<le> x \<and> x \<le> INT_MAX then Some x else None)"

definition idx :: "int \<Rightarrow> int \<Rightarrow> int \<Rightarrow> int option" where
  "idx ix n jx = do { m \<leftarrow> c_int (n * jx); c_int (ix + m) }"

text \<open>Indexed reads and writes of a device vector; the index is a C \<open>int\<close>.\<close>

definition vec_get :: "real list \<Rightarrow> int \<Rightarrow> real option" where
  "vec_get v i = (if 0 \<le> i \<and> i < int (length v) then Some (v ! nat i) else None)"

definition vec_set :: "real list \<Rightarrow> int \<Rightarrow> real \<Rightarrow> real list option" where
  "vec_set v i x = (if 0 \<le> i \<and> i < int (length v) then Some (v[nat i := x]) else None)"

subsection \<open>Functions of the C mathematics library\<close>

text \<open>
  \<open>exp\<close>, \<open>log\<close> and \<open>sqrt\<close> are the functions \<open>exp\<close>, \<open>ln\<close> and \<open>sqrt\<close> on the
  reals. \<open>pow x y\<close> is the integer power for an integral exponent and \<open>exp (y * ln x)\<close>
  otherwise; the arguments at which the C function reports a domain or pole error
  (a negative base with a fractional exponent, zero with a negative exponent) have no
  meaning in the model, and do not occur for valid parameters.
\<close>

definition pow :: "real \<Rightarrow> real \<Rightarrow> real" where
  "pow x y = (if y = of_int \<lfloor>y\<rfloor> then x powi \<lfloor>y\<rfloor> else x powr y)"

text \<open>The error function, by its Maclaurin series
  \<open>erf x = 2 / \<surd>\<pi> * (\<Sum>n. (-1)\<^sup>n x\<^bsup>2n+1\<^esup> / (n! (2n+1)))\<close>.\<close>

definition erf_coeff :: "nat \<Rightarrow> real" where
  "erf_coeff n = (- 1) ^ n / (fact n * real (2 * n + 1))"

definition erf :: "real \<Rightarrow> real" where
  "erf x = 2 / sqrt pi * (\<Sum>n. erf_coeff n * x ^ (2 * n + 1))"

subsection \<open>The function \<open>ar1\<close>\<close>

text \<open>The constants computed from the parameters (lines 52 to 56).\<close>

definition sigma_z :: "parameters \<Rightarrow> real" where
  "sigma_z param = sigma param / pow (1 - pow (rho param) 2) 0.5"

definition mu_z :: "parameters \<Rightarrow> real" where
  "mu_z param = mu param / (1 - rho param)"

definition zmin :: "parameters \<Rightarrow> real" where
  "zmin param = mu_z param - lambda param * sigma_z param"

definition zmax :: "parameters \<Rightarrow> real" where
  "zmax param = mu_z param + lambda param * sigma_z param"

definition zstep :: "parameters \<Rightarrow> real" where
  "zstep param = (zmax param - zmin param) / real_of_int (nz param - 1)"

text \<open>The loop of line 57: \<open>for (ix = 0; ix < nz; ++ix) Z[ix] = exp(zmin + zstep*ix)\<close>.\<close>

function grid_loop :: "parameters \<Rightarrow> int \<Rightarrow> real list \<Rightarrow> real list option" where
  "grid_loop param ix Z =
     (if ix < nz param
      then do {
        Z' \<leftarrow> vec_set Z ix (exp (zmin param + zstep param * real_of_int ix));
        grid_loop param (ix + 1) Z'
      }
      else Some Z)"
  by pat_completeness auto
termination
  by (relation "measure (\<lambda>(param, ix, Z). nat (nz param - ix))") auto

text \<open>
  Lines 62 to 64, the head of the body of the outer loop: the bottom bin \<open>P[ix]\<close> and the
  initial value of the top bin \<open>P[ix + nz*(nz-1)]\<close>.
\<close>

definition row_init :: "parameters \<Rightarrow> int \<Rightarrow> real list \<Rightarrow> real list \<Rightarrow> real list option" where
  "row_init param ix Z P = do {
     z_ix \<leftarrow> vec_get Z ix;
     let normarg1 = (zmin param - mu param - rho param * ln z_ix) / sigma param
                      + 0.5 * zstep param / sigma param;
     P1 \<leftarrow> vec_set P ix (0.5 + 0.5 * erf (normarg1 / sqrt 2));
     m \<leftarrow> c_int (nz param - 1);
     t \<leftarrow> idx ix (nz param) m;
     p_ix \<leftarrow> vec_get P1 ix;
     vec_set P1 t (1 - p_ix)
   }"

text \<open>
  Lines 66 to 69, the body of the inner loop: the interior bin \<open>P[ix + nz*jx]\<close>, which is
  then subtracted from the top bin.
\<close>

definition inner_step :: "parameters \<Rightarrow> int \<Rightarrow> int \<Rightarrow> real list \<Rightarrow> real list \<Rightarrow> real list option" where
  "inner_step param ix jx Z P = do {
     z_jx \<leftarrow> vec_get Z jx;
     z_ix \<leftarrow> vec_get Z ix;
     let normarg1 = (ln z_jx - mu param - rho param * ln z_ix) / sigma param
                      + 0.5 * zstep param / sigma param;
     let normarg2 = (ln z_jx - mu param - rho param * ln z_ix) / sigma param
                      - 0.5 * zstep param / sigma param;
     a \<leftarrow> idx ix (nz param) jx;
     P1 \<leftarrow> vec_set P a (0.5 * erf (normarg1 / sqrt 2) - 0.5 * erf (normarg2 / sqrt 2));
     m \<leftarrow> c_int (nz param - 1);
     t \<leftarrow> idx ix (nz param) m;
     top \<leftarrow> vec_get P1 t;
     a' \<leftarrow> idx ix (nz param) jx;
     p_ij \<leftarrow> vec_get P1 a';
     vec_set P1 t (top - p_ij)
   }"

text \<open>
  The inner loop \<open>for (jx = 1; jx < nz-1; ++jx)\<close> and the outer loop
  \<open>for (ix = 0; ix < nz; ++ix)\<close>. A counter is incremented only while it is below \<open>nz\<close>
  or \<open>nz - 1\<close>, and \<open>nz - 1\<close> is compared only in a row \<open>ix < nz\<close> with \<open>0 \<le> ix\<close>, so
  these operations stay in the range of \<open>int\<close> once \<open>nz\<close> is an \<open>int\<close>.
\<close>

function inner_loop :: "parameters \<Rightarrow> int \<Rightarrow> int \<Rightarrow> real list \<Rightarrow> real list \<Rightarrow> real list option" where
  "inner_loop param ix jx Z P =
     (if jx < nz param - 1
      then do {
        P' \<leftarrow> inner_step param ix jx Z P;
        inner_loop param ix (jx + 1) Z P'
      }
      else Some P)"
  by pat_completeness auto
termination
  by (relation "measure (\<lambda>(param, ix, jx, Z, P). nat (nz param - 1 - jx))") auto

function outer_loop :: "parameters \<Rightarrow> int \<Rightarrow> real list \<Rightarrow> real list \<Rightarrow> real list option" where
  "outer_loop param ix Z P =
     (if ix < nz param
      then do {
        P1 \<leftarrow> row_init param ix Z P;
        P2 \<leftarrow> inner_loop param ix 1 Z P1;
        outer_loop param (ix + 1) Z P2
      }
      else Some P)"
  by pat_completeness auto
termination
  by (relation "measure (\<lambda>(param, ix, Z, P). nat (nz param - ix))") auto

text \<open>
  The function: \<open>nz\<close> is read into an \<open>int\<close> (line 45), \<open>nz - 1\<close> is computed for
  \<open>zstep\<close> (line 56), and the two loop nests follow.
\<close>

definition ar1 :: "parameters \<Rightarrow> real list \<Rightarrow> real list \<Rightarrow> (real list \<times> real list) option" where
  "ar1 param Z P = do {
     c_int (nz param);
     c_int (nz param - 1);
     Z' \<leftarrow> grid_loop param 0 Z;
     P' \<leftarrow> outer_loop param 0 Z' P;
     Some (Z', P')
   }"

subsection \<open>Preconditions and the normal distribution function\<close>

text \<open>The valid parameter sets: \<open>nz \<ge> 3\<close>, \<open>sigma > 0\<close>, \<open>|rho| < 1\<close>, \<open>lambda > 0\<close>.\<close>

definition valid :: "parameters \<Rightarrow> bool" where
  "valid param \<longleftrightarrow>
     3 \<le> nz param \<and> 0 < sigma param \<and> \<bar>rho param\<bar> < 1 \<and> 0 < lambda param"

text \<open>The caller provides a grid vector of at least \<open>nz\<close> and a matrix vector of at least
  \<open>nz * nz\<close> elements.\<close>

definition sized :: "parameters \<Rightarrow> real list \<Rightarrow> real list \<Rightarrow> bool" where
  "sized param Z P \<longleftrightarrow>
     nz param \<le> int (length Z) \<and> nz param * nz param \<le> int (length P)"

text \<open>
  The index arithmetic stays in the range of \<open>int\<close>: \<open>46340\<close> is the largest \<open>nz\<close> for
  which the largest index \<open>nz * nz - 1\<close> of the matrix is at most \<open>INT_MAX\<close>.
\<close>

definition fits_int :: "parameters \<Rightarrow> bool" where
  "fits_int param \<longleftrightarrow> INT_MIN < nz param \<and> nz param \<le> 46340"

text \<open>
  The state that a call of \<open>ar1\<close> reaches: the parameters, passed by reference to a
  constant, and the two vectors, passed by reference. The extension of the record stands
  for everything else in the caller's state.
\<close>

record memory =
  m_param :: parameters
  m_Z :: "real list"
  m_P :: "real list"

definition ar1_call :: "'a memory_scheme \<Rightarrow> 'a memory_scheme option" where
  "ar1_call s = do {
     (Z', P') \<leftarrow> ar1 (m_param s) (m_Z s) (m_P s);
     Some (s\<lparr>m_Z := Z', m_P := P'\<rparr>)
   }"

text \<open>The standard normal distribution function, by the identity
  \<open>\<Phi> x = 0.5 + 0.5 * erf (x / \<surd>2)\<close>.\<close>

definition Phi :: "real \<Rightarrow> real" where
  "Phi x = 0.5 + 0.5 * erf (x / sqrt 2)"

text \<open>The two concrete scenarios of the specification, and the smallest \<open>nz\<close> at which
  an index leaves the range of \<open>int\<close>.\<close>

definition scenario5 :: parameters where
  "scenario5 = \<lparr>nz = 5, mu = 0, rho = 0.9, sigma = 0.02, lambda = 3\<rparr>"

definition scenario3 :: parameters where
  "scenario3 = \<lparr>nz = 3, mu = 0, rho = 0, sigma = 1, lambda = 3\<rparr>"

definition scenario_overflow :: parameters where
  "scenario_overflow = \<lparr>nz = 46341, mu = 0, rho = 0, sigma = 1, lambda = 3\<rparr>"

subsection \<open>The parallel formulation of the specification\<close>

text \<open>
  The specification describes a second way to fill the matrix: every entry of the columns
  \<open>0..nz-2\<close> is computed on its own, the bottom bin by the distribution function at its
  upper edge and an interior bin by the difference of the distribution function at its two
  edges, over the grid \<open>Z[k] = exp (zmin + zstep * k)\<close>; the top bin of row \<open>i\<close> is one
  minus the sum of the entries \<open>P[i,0..nz-2]\<close> of the row.
\<close>

definition parallel_cell :: "parameters \<Rightarrow> int \<Rightarrow> int \<Rightarrow> real" where
  "parallel_cell param i j =
     (let Z = (\<lambda>k. exp (zmin param + zstep param * real_of_int k)) in
      if j = 0
      then Phi ((zmin param - mu param - rho param * ln (Z i)) / sigma param
                  + 0.5 * zstep param / sigma param)
      else Phi ((ln (Z j) - mu param - rho param * ln (Z i)) / sigma param
                  + 0.5 * zstep param / sigma param)
           - Phi ((ln (Z j) - mu param - rho param * ln (Z i)) / sigma param
                  - 0.5 * zstep param / sigma param))"

definition parallel_entry :: "parameters \<Rightarrow> int \<Rightarrow> int \<Rightarrow> real" where
  "parallel_entry param i j =
     (if j < nz param - 1 then parallel_cell param i j
      else 1 - (\<Sum>j' = 0..nz param - 2. parallel_cell param i j'))"

definition ar1_parallel :: "parameters \<Rightarrow> real list" where
  "ar1_parallel param =
     map (\<lambda>k. parallel_entry param (int k mod nz param) (int k div nz param))
       [0..<nat (nz param * nz param)]"

subsection \<open>Closed forms of the entries\<close>

text \<open>
  The values that the loops compute, as functions of the parameters and the indices:
  the logarithm of the grid, the arguments at the upper and the lower edge of bin \<open>j\<close>
  seen from state \<open>i\<close>, and the three kinds of entry of row \<open>i\<close>.
\<close>

definition zlog :: "parameters \<Rightarrow> int \<Rightarrow> real" where
  "zlog param i = zmin param + zstep param * real_of_int i"

definition upper_arg :: "parameters \<Rightarrow> int \<Rightarrow> int \<Rightarrow> real" where
  "upper_arg param i j =
     (zlog param j - mu param - rho param * zlog param i) / sigma param
       + 0.5 * zstep param / sigma param"

definition lower_arg :: "parameters \<Rightarrow> int \<Rightarrow> int \<Rightarrow> real" where
  "lower_arg param i j =
     (zlog param j - mu param - rho param * zlog param i) / sigma param
       - 0.5 * zstep param / sigma param"

definition bottom :: "parameters \<Rightarrow> int \<Rightarrow> real" where
  "bottom param i = 0.5 + 0.5 * erf (upper_arg param i 0 / sqrt 2)"

definition interior :: "parameters \<Rightarrow> int \<Rightarrow> int \<Rightarrow> real" where
  "interior param i j =
     0.5 * erf (upper_arg param i j / sqrt 2) - 0.5 * erf (lower_arg param i j / sqrt 2)"

definition top :: "parameters \<Rightarrow> int \<Rightarrow> real" where
  "top param i = 1 - bottom param i - (\<Sum>j = 1..nz param - 2. interior param i j)"

definition entry :: "parameters \<Rightarrow> int \<Rightarrow> int \<Rightarrow> real" where
  "entry param i j =
     (if j = 0 then bottom param i
      else if j < nz param - 1 then interior param i j
      else top param i)"

definition grid_ok :: "parameters \<Rightarrow> real list \<Rightarrow> bool" where
  "grid_ok param Z \<longleftrightarrow>
     nz param \<le> int (length Z) \<and>
     (\<forall>k. 0 \<le> k \<and> k < nz param \<longrightarrow> Z ! nat k = exp (zlog param k))"

text \<open>A vector keeps its length and all its elements from index \<open>n\<close> on.\<close>

definition preserved :: "int \<Rightarrow> real list \<Rightarrow> real list \<Rightarrow> bool" where
  "preserved n v v' \<longleftrightarrow> length v' = length v \<and> (\<forall>k. n \<le> int k \<longrightarrow> v' ! k = v ! k)"

subsection \<open>Auxiliary functions for the analysis of \<open>erf\<close>\<close>

text \<open>
  \<open>gauss_int x\<close> is the integral of \<open>exp (- t\<^sup>2)\<close> from \<open>0\<close> to \<open>x\<close>, written with the
  power series \<open>erf_aux\<close>; \<open>cos_pow_int n t\<close> is the integral of \<open>cos\<^sup>n\<close> from \<open>0\<close> to
  \<open>t\<close>, by the reduction formula, and \<open>wallis n\<close> its value at \<open>\<pi> / 2\<close>.
\<close>

definition erf_aux :: "real \<Rightarrow> real" where
  "erf_aux y = (\<Sum>n. erf_coeff n * y ^ n)"

definition gauss_int :: "real \<Rightarrow> real" where
  "gauss_int x = x * erf_aux (x\<^sup>2)"

fun cos_pow_int :: "nat \<Rightarrow> real \<Rightarrow> real" where
  "cos_pow_int 0 t = t"
| "cos_pow_int (Suc 0) t = sin t"
| "cos_pow_int (Suc (Suc n)) t =
     cos t ^ Suc n * sin t / real (n + 2) + real (n + 1) / real (n + 2) * cos_pow_int n t"

definition wallis :: "nat \<Rightarrow> real" where
  "wallis n = cos_pow_int n (pi / 2)"

section \<open>The error function\<close>

text \<open>
  The series converges everywhere, \<open>gauss_int\<close> has the derivative \<open>exp (- x\<^sup>2)\<close>, and
  \<open>erf\<close> is odd, increasing and bounded by \<open>1\<close>. The bound compares \<open>exp (- x\<^sup>2)\<close> with
  \<open>1 / (1 + x\<^sup>2)\<close>, whose powers integrate to the integrals of powers of the cosine,
  and bounds those by Wallis' inequalities.
\<close>

lemma summable_erf_aux: "summable (\<lambda>n. erf_coeff n * y ^ n)"
proof (rule summable_comparison_test)
  show "summable (\<lambda>n. inverse (fact n) * \<bar>y\<bar> ^ n)"
    by (rule summable_exp)
  have "norm (erf_coeff n * y ^ n) \<le> inverse (fact n) * \<bar>y\<bar> ^ n" for n
  proof -
    have "(1::real) \<le> real (2 * n + 1)" by simp
    then have "fact n * 1 \<le> fact n * real (2 * n + 1)"
      by (intro mult_left_mono) auto
    then have "inverse (fact n * real (2 * n + 1)) \<le> inverse (fact n :: real)"
      by (intro le_imp_inverse_le) auto
    moreover have "norm (erf_coeff n * y ^ n) = inverse (fact n * real (2 * n + 1)) * \<bar>y\<bar> ^ n"
      by (simp add: erf_coeff_def abs_mult power_abs divide_inverse)
    ultimately show ?thesis by (simp add: mult_right_mono)
  qed
  then show "\<exists>N. \<forall>n\<ge>N. norm (erf_coeff n * y ^ n) \<le> inverse (fact n) * \<bar>y\<bar> ^ n"
    by blast
qed

lemma erf_aux_sums: "(\<lambda>n. erf_coeff n * y ^ n) sums erf_aux y"
  unfolding erf_aux_def by (rule summable_sums [OF summable_erf_aux])

lemma DERIV_erf_aux:
  "DERIV erf_aux y :> (\<Sum>n. diffs erf_coeff n * y ^ n)"
  unfolding erf_aux_def [abs_def]
  by (rule termdiffs_strong_converges_everywhere) (rule summable_erf_aux)

lemma diffs_erf_aux_sums:
  "(\<lambda>n. diffs erf_coeff n * y ^ n) sums (\<Sum>n. diffs erf_coeff n * y ^ n)"
  by (rule summable_sums, rule termdiff_converges_all) (rule summable_erf_aux)

lemma erf_aux_ode:
  "erf_aux y + 2 * y * (\<Sum>n. diffs erf_coeff n * y ^ n) = exp (- y)"
proof -
  let ?d = "\<Sum>n. diffs erf_coeff n * y ^ n"
  let ?f = "\<lambda>n. real n * erf_coeff n * y ^ n"
  have "(\<lambda>n. y * (diffs erf_coeff n * y ^ n)) sums (y * ?d)"
    by (rule sums_mult [OF diffs_erf_aux_sums])
  moreover have "y * (diffs erf_coeff n * y ^ n) = ?f (Suc n)" for n
    by (simp add: diffs_def)
  ultimately have "(\<lambda>n. ?f (Suc n)) sums (y * ?d)" by simp
  then have "?f sums (y * ?d + ?f 0)" using sums_Suc_iff [of ?f "y * ?d"] by blast
  then have "?f sums (y * ?d)" by simp
  then have "(\<lambda>n. 2 * ?f n) sums (2 * (y * ?d))" by (rule sums_mult)
  from sums_add [OF erf_aux_sums this]
  have "(\<lambda>n. erf_coeff n * y ^ n + 2 * ?f n) sums (erf_aux y + 2 * (y * ?d))" .
  moreover have "erf_coeff n * y ^ n + 2 * ?f n = (- y) ^ n /\<^sub>R fact n" for n
  proof -
    have "erf_coeff n * y ^ n + 2 * ?f n = (real (2 * n + 1) * erf_coeff n) * y ^ n"
      by (simp add: algebra_simps)
    also have "real (2 * n + 1) * erf_coeff n = (- 1) ^ n / fact n"
      by (simp add: erf_coeff_def)
    also have "(- 1) ^ n / fact n * y ^ n = (- y) ^ n /\<^sub>R fact n"
      by (simp add: power_minus [of y n] divide_inverse mult_ac)
    finally show ?thesis .
  qed
  ultimately have "(\<lambda>n. (- y) ^ n /\<^sub>R fact n) sums (erf_aux y + 2 * (y * ?d))" by simp
  then have "erf_aux y + 2 * (y * ?d) = exp (- y)"
    using exp_converges [of "- y"] by (rule sums_unique2)
  then show ?thesis by (simp add: mult.assoc)
qed

lemma DERIV_gauss_int: "DERIV gauss_int x :> exp (- x\<^sup>2)"
proof -
  let ?d = "\<Sum>n. diffs erf_coeff n * (x\<^sup>2) ^ n"
  have "DERIV (\<lambda>x. erf_aux (x\<^sup>2)) x :> ?d * (2 * x)"
    by (rule DERIV_chain2 [OF DERIV_erf_aux]) (auto intro!: derivative_eq_intros)
  then have "DERIV (\<lambda>x. x * erf_aux (x\<^sup>2)) x :> 1 * erf_aux (x\<^sup>2) + ?d * (2 * x) * x"
    by (rule DERIV_mult [OF DERIV_ident])
  moreover have "1 * erf_aux (x\<^sup>2) + ?d * (2 * x) * x = exp (- x\<^sup>2)"
    using erf_aux_ode [of "x\<^sup>2"] by (simp add: power2_eq_square algebra_simps)
  ultimately show ?thesis unfolding gauss_int_def [abs_def] by simp
qed

lemma gauss_int_0 [simp]: "gauss_int 0 = 0"
  by (simp add: gauss_int_def)

lemma gauss_int_minus: "gauss_int (- x) = - gauss_int x"
  by (simp add: gauss_int_def)

lemma erf_gauss_int: "erf x = 2 / sqrt pi * gauss_int x"
proof -
  have "(\<lambda>n. x * (erf_coeff n * (x\<^sup>2) ^ n)) sums (x * erf_aux (x\<^sup>2))"
    by (rule sums_mult [OF erf_aux_sums])
  moreover have "x * (erf_coeff n * (x\<^sup>2) ^ n) = erf_coeff n * x ^ (2 * n + 1)" for n
    by (simp add: power_mult)
  ultimately have "(\<lambda>n. erf_coeff n * x ^ (2 * n + 1)) sums gauss_int x"
    by (simp add: gauss_int_def)
  then have "(\<Sum>n. erf_coeff n * x ^ (2 * n + 1)) = gauss_int x"
    by (rule sums_unique [symmetric])
  then show ?thesis by (simp add: erf_def)
qed

lemma gauss_int_strict_mono:
  assumes "a < b" shows "gauss_int a < gauss_int b"
  using assms
  by (rule DERIV_pos_imp_increasing) (use DERIV_gauss_int in \<open>auto intro!: exI\<close>)

subsection \<open>Integrals of powers of the cosine\<close>

lemma cos_pow_step_algebra:
  fixes a c s r :: real
  assumes "s * s = 1 - c * c" "0 \<le> r"
  shows "((r + 1) * a * (- s) * s + a * c * c) / (r + 2) + (r + 1) / (r + 2) * a = a * c * c"
proof -
  have "(r + 1) * a * (- s) * s = - ((r + 1) * a * (s * s))" by simp
  also have "\<dots> = - ((r + 1) * a * (1 - c * c))" by (simp only: assms(1))
  finally have e: "(r + 1) * a * (- s) * s = - ((r + 1) * a * (1 - c * c))" .
  have "(r + 1) * a * (- s) * s + a * c * c + (r + 1) * a
          = - ((r + 1) * a * (1 - c * c)) + a * c * c + (r + 1) * a"
    by (simp only: e)
  also have "\<dots> = (r + 2) * (a * c * c)"
    by (simp add: algebra_simps)
  finally have "(r + 1) * a * (- s) * s + a * c * c + (r + 1) * a = (r + 2) * (a * c * c)" .
  moreover have "((r + 1) * a * (- s) * s + a * c * c) / (r + 2) + (r + 1) / (r + 2) * a
      = ((r + 1) * a * (- s) * s + a * c * c + (r + 1) * a) / (r + 2)"
  proof -
    have "(r + 1) / (r + 2) * a = (r + 1) * a / (r + 2)" by simp
    then have "((r + 1) * a * (- s) * s + a * c * c) / (r + 2) + (r + 1) / (r + 2) * a
      = ((r + 1) * a * (- s) * s + a * c * c) / (r + 2) + (r + 1) * a / (r + 2)"
      by (simp only:)
    also have "\<dots> = ((r + 1) * a * (- s) * s + a * c * c + (r + 1) * a) / (r + 2)"
      by (rule add_divide_distrib [symmetric])
    finally show ?thesis .
  qed
  moreover have "r + 2 \<noteq> 0" using assms(2) by simp
  ultimately show ?thesis by simp
qed

lemma DERIV_cos_pow_int: "DERIV (cos_pow_int n) t :> cos t ^ n"
proof (induction n t rule: cos_pow_int.induct)
  case (1 t)
  have "DERIV (\<lambda>t. t) t :> 1" by (rule DERIV_ident)
  moreover have "cos_pow_int 0 = (\<lambda>t. t)" by (rule ext) simp
  ultimately show ?case by simp
next
  case (2 t)
  have "cos_pow_int (Suc 0) = sin" by (rule ext) simp
  then show ?case by (simp add: DERIV_sin)
next
  case (3 n t)
  let ?c = "cos t" and ?s = "sin t" and ?r = "real n"
  have eq: "cos_pow_int (Suc (Suc n)) =
      (\<lambda>t. cos t ^ Suc n * sin t / real (n + 2) + real (n + 1) / real (n + 2) * cos_pow_int n t)"
    by (rule ext) simp
  have s2: "?s * ?s = 1 - ?c * ?c"
    using sin_cos_squared_add [of t] by (simp add: power2_eq_square)
  have p: "DERIV (\<lambda>t. cos t ^ Suc n) t :> real (Suc n) * ?c ^ n * (- ?s)"
    by (rule derivative_eq_intros refl | simp)+
  have "DERIV (\<lambda>t. cos t ^ Suc n * sin t) t
          :> real (Suc n) * ?c ^ n * (- ?s) * ?s + ?c * (?c ^ Suc n)"
    by (rule DERIV_mult [OF p DERIV_sin])
  then have "DERIV (\<lambda>t. cos t ^ Suc n * sin t / real (n + 2)) t
          :> (real (Suc n) * ?c ^ n * (- ?s) * ?s + ?c * (?c ^ Suc n)) / real (n + 2)"
    by (rule DERIV_cdivide)
  moreover have "DERIV (\<lambda>t. real (n + 1) / real (n + 2) * cos_pow_int n t) t
          :> real (n + 1) / real (n + 2) * ?c ^ n"
    by (rule DERIV_cmult [OF "3.IH"])
  ultimately have "DERIV (\<lambda>t. cos t ^ Suc n * sin t / real (n + 2)
                  + real (n + 1) / real (n + 2) * cos_pow_int n t) t
          :> (real (Suc n) * ?c ^ n * (- ?s) * ?s + ?c * (?c ^ Suc n)) / real (n + 2)
              + real (n + 1) / real (n + 2) * ?c ^ n"
    by (rule DERIV_add)
  moreover have "(real (Suc n) * ?c ^ n * (- ?s) * ?s + ?c * (?c ^ Suc n)) / real (n + 2)
              + real (n + 1) / real (n + 2) * ?c ^ n = ?c ^ Suc (Suc n)"
    using cos_pow_step_algebra [OF s2, of ?r "?c ^ n"] by (simp add: ac_simps)
  ultimately have "DERIV (\<lambda>t. cos t ^ Suc n * sin t / real (n + 2)
                  + real (n + 1) / real (n + 2) * cos_pow_int n t) t :> ?c ^ Suc (Suc n)"
    by (simp only:)
  then show ?case by (simp only: eq)
qed

lemma cos_pow_int_0 [simp]: "cos_pow_int n 0 = 0"
  by (induction n "0::real" rule: cos_pow_int.induct) simp_all

lemma wallis_0: "wallis 0 = pi / 2" and wallis_1: "wallis (Suc 0) = 1"
  and wallis_Suc_Suc: "wallis (Suc (Suc n)) = real (n + 1) / real (n + 2) * wallis n"
  by (simp_all add: wallis_def)

lemma wallis_pos_pair: "0 < wallis n \<and> 0 < wallis (Suc n)"
  by (induction n) (simp_all add: wallis_0 wallis_1 wallis_Suc_Suc)

lemma wallis_pos: "0 < wallis n"
  using wallis_pos_pair [of n] by simp

lemma wallis_prod: "real (n + 1) * wallis n * wallis (Suc n) = pi / 2"
proof (induction n)
  case 0
  show ?case by (simp add: wallis_0 wallis_1)
next
  case (Suc n)
  have "real (Suc n + 1) * wallis (Suc n) * wallis (Suc (Suc n))
          = real (Suc n + 1) * wallis (Suc n) * (real (n + 1) / real (n + 2) * wallis n)"
    by (simp only: wallis_Suc_Suc)
  also have "\<dots> = real (n + 1) * wallis n * wallis (Suc n)"
    by (simp add: field_simps)
  also have "\<dots> = pi / 2" by (rule Suc)
  finally show ?case .
qed

lemma wallis_antimono: "wallis (Suc n) \<le> wallis n"
proof -
  let ?D = "\<lambda>t. cos_pow_int n t - cos_pow_int (Suc n) t"
  have "?D 0 \<le> ?D (pi / 2)"
  proof (rule DERIV_nonneg_imp_nondecreasing [of 0 "pi / 2" ?D])
    show "0 \<le> pi / 2" by simp
    fix t :: real assume t: "0 \<le> t" "t \<le> pi / 2"
    have c: "0 \<le> cos t" "cos t \<le> 1" using t by (auto intro: cos_ge_zero)
    have "DERIV ?D t :> cos t ^ n - cos t ^ Suc n"
      by (intro DERIV_diff DERIV_cos_pow_int)
    moreover have "cos t ^ Suc n \<le> cos t ^ n"
      using c by (simp add: mult_left_le_one_le)
    ultimately show "\<exists>y. DERIV ?D t :> y \<and> 0 \<le> y"
      by (intro exI [of _ "cos t ^ n - cos t ^ Suc n"]) simp
  qed
  then show ?thesis by (simp add: wallis_def)
qed

lemma wallis_even_bound: "(wallis (2 * Suc m))\<^sup>2 \<le> pi / (4 * real (Suc m))"
proof -
  let ?k = "2 * m + 1"
  have e: "2 * Suc m = Suc ?k" by simp
  have "wallis (Suc ?k) * wallis (Suc ?k) \<le> wallis ?k * wallis (Suc ?k)"
    using wallis_antimono [of ?k] wallis_pos [of "Suc ?k"] by (intro mult_right_mono) auto
  moreover have "wallis ?k * wallis (Suc ?k) = pi / 2 / real (?k + 1)"
    using wallis_prod [of ?k] by (simp add: field_simps)
  moreover have "pi / 2 / real (?k + 1) = pi / (4 * real (Suc m))"
    by (simp add: field_simps)
  ultimately show ?thesis unfolding e by (simp add: power2_eq_square)
qed

lemma exp_neg_square_le: "exp (- x\<^sup>2) \<le> inverse (1 + x\<^sup>2)" for x :: real
proof -
  have "1 + x\<^sup>2 \<le> exp (x\<^sup>2)" by (rule exp_ge_add_one_self)
  moreover have "0 < 1 + x\<^sup>2" by (simp add: add_pos_nonneg)
  ultimately have "inverse (exp (x\<^sup>2)) \<le> inverse (1 + x\<^sup>2)"
    by (rule le_imp_inverse_le)
  then show ?thesis by (simp add: exp_minus)
qed

lemma gauss_int_scaled_le:
  assumes "0 \<le> x"
  shows "gauss_int (sqrt (real (Suc n)) * x) / sqrt (real (Suc n))
           \<le> cos_pow_int (2 * n) (arctan x)"
proof -
  let ?r = "sqrt (real (Suc n))"
  let ?G = "\<lambda>x. cos_pow_int (2 * n) (arctan x) - gauss_int (?r * x) / ?r"
  have r: "0 < ?r" by simp
  have "?G 0 \<le> ?G x"
  proof (rule DERIV_nonneg_imp_nondecreasing [OF assms])
    fix u :: real
    let ?q = "inverse (1 + u\<^sup>2)"
    have "DERIV (\<lambda>x. cos_pow_int (2 * n) (arctan x)) u :> cos (arctan u) ^ (2 * n) * ?q"
      by (rule DERIV_chain2 [OF DERIV_cos_pow_int DERIV_arctan])
    moreover have "DERIV (\<lambda>x. gauss_int (?r * x)) u :> exp (- (?r * u)\<^sup>2) * ?r"
      by (rule DERIV_chain2 [OF DERIV_gauss_int]) (auto intro!: derivative_eq_intros)
    then have "DERIV (\<lambda>x. gauss_int (?r * x) / ?r) u :> exp (- (?r * u)\<^sup>2) * ?r / ?r"
      by (rule DERIV_cdivide)
    ultimately have D: "DERIV ?G u :> cos (arctan u) ^ (2 * n) * ?q - exp (- (?r * u)\<^sup>2) * ?r / ?r"
      by (rule DERIV_diff)
    have q: "0 < 1 + u\<^sup>2" by (simp add: add_pos_nonneg)
    have "(cos (arctan u))\<^sup>2 = ?q"
      using q by (simp add: cos_arctan power_divide inverse_eq_divide)
    then have c: "cos (arctan u) ^ (2 * n) * ?q = ?q ^ Suc n"
      by (simp add: power_mult)
    have "(?r * u)\<^sup>2 = real (Suc n) * u\<^sup>2" by (simp add: power_mult_distrib)
    then have "exp (- (?r * u)\<^sup>2) = exp (real (Suc n) * (- u\<^sup>2))" by simp
    also have "\<dots> = exp (- u\<^sup>2) ^ Suc n" by (rule exp_of_nat_mult)
    also have "\<dots> \<le> ?q ^ Suc n"
      by (intro power_mono exp_neg_square_le) simp
    finally have "exp (- (?r * u)\<^sup>2) * ?r / ?r \<le> ?q ^ Suc n" using r by simp
    then have "0 \<le> cos (arctan u) ^ (2 * n) * ?q - exp (- (?r * u)\<^sup>2) * ?r / ?r"
      unfolding c by simp
    with D show "\<exists>y. DERIV ?G u :> y \<and> 0 \<le> y" by blast
  qed
  then show ?thesis by simp
qed

lemma cos_pow_int_even_le_wallis: "cos_pow_int (2 * n) (arctan x) \<le> wallis (2 * n)"
  unfolding wallis_def
proof (rule DERIV_nonneg_imp_nondecreasing [of "arctan x" "pi / 2" "cos_pow_int (2 * n)"])
  show "arctan x \<le> pi / 2" using arctan_ubound [of x] by simp
  fix t :: real
  have "0 \<le> (cos t ^ n)\<^sup>2" by simp
  then have "0 \<le> cos t ^ (2 * n)" by (simp add: power_mult [symmetric] mult.commute)
  then show "\<exists>y. DERIV (cos_pow_int (2 * n)) t :> y \<and> 0 \<le> y"
    using DERIV_cos_pow_int by blast
qed

lemma gauss_int_nonneg: "0 \<le> y \<Longrightarrow> 0 \<le> gauss_int y"
  using gauss_int_strict_mono [of 0 y] by (cases "y = 0") auto

lemma gauss_int_square_le:
  assumes "0 \<le> y"
  shows "(gauss_int y)\<^sup>2 \<le> pi / 4 * (1 + inverse (real (Suc m)))"
proof -
  let ?n = "Suc m"
  let ?r = "sqrt (real (Suc ?n))"
  have r: "0 < ?r" by simp
  have "gauss_int (?r * (y / ?r)) / ?r \<le> wallis (2 * ?n)"
    using gauss_int_scaled_le [of "y / ?r" ?n] cos_pow_int_even_le_wallis [of ?n "y / ?r"]
      assms by simp
  then have "gauss_int y / ?r \<le> wallis (2 * ?n)" using r by simp
  then have "gauss_int y \<le> ?r * wallis (2 * ?n)" using r by (simp add: field_simps)
  then have "(gauss_int y)\<^sup>2 \<le> (?r * wallis (2 * ?n))\<^sup>2"
    using gauss_int_nonneg [OF assms] by (intro power_mono) auto
  also have "\<dots> = real (Suc ?n) * (wallis (2 * ?n))\<^sup>2"
    by (simp add: power_mult_distrib)
  also have "\<dots> \<le> real (Suc ?n) * (pi / (4 * real ?n))"
    by (intro mult_left_mono wallis_even_bound) simp
  also have "\<dots> = pi / 4 * (1 + inverse (real ?n))"
    by (simp add: field_simps)
  finally show ?thesis .
qed

lemma gauss_int_le:
  assumes "0 \<le> y"
  shows "gauss_int y \<le> sqrt pi / 2"
proof -
  have "(\<lambda>m. pi / 4 * (1 + inverse (real (Suc m)))) \<longlonglongrightarrow> pi / 4 * (1 + 0)"
    by (intro tendsto_intros LIMSEQ_inverse_real_of_nat)
  then have "(gauss_int y)\<^sup>2 \<le> pi / 4 * (1 + 0)"
    by (rule LIMSEQ_le_const) (use gauss_int_square_le [OF assms] in blast)
  then have "(gauss_int y)\<^sup>2 \<le> (sqrt pi / 2)\<^sup>2"
    by (simp add: power_divide)
  then show ?thesis
    by (rule power2_le_imp_le) simp
qed

lemma erf_0 [simp]: "erf 0 = 0"
  by (simp add: erf_gauss_int)

lemma erf_minus: "erf (- x) = - erf x"
  by (simp add: erf_gauss_int gauss_int_minus)

lemma erf_strict_mono: "a < b \<Longrightarrow> erf a < erf b"
  unfolding erf_gauss_int
  by (intro mult_strict_left_mono gauss_int_strict_mono) simp_all

lemma erf_mono: "a \<le> b \<Longrightarrow> erf a \<le> erf b"
  using erf_strict_mono [of a b] by (cases "a = b") auto

lemma erf_le_1: "erf x \<le> 1"
proof (cases "0 \<le> x")
  case True
  have "2 / sqrt pi * gauss_int x \<le> 2 / sqrt pi * (sqrt pi / 2)"
    by (intro mult_left_mono gauss_int_le True) simp
  then show ?thesis by (simp add: erf_gauss_int)
next
  case False
  then have "erf x \<le> erf 0" by (intro erf_mono) simp
  then show ?thesis by simp
qed

lemma erf_ge_minus_1: "- 1 \<le> erf x"
  using erf_le_1 [of "- x"] by (simp add: erf_minus)

section \<open>The loops of \<open>ar1\<close>\<close>

declare grid_loop.simps [simp del] inner_loop.simps [simp del] outer_loop.simps [simp del]

lemma idx_bounds:
  fixes i j n :: int
  assumes "0 \<le> i" "i < n" "0 \<le> j" "j < n"
  shows "0 \<le> i + n * j" and "i + n * j < n * n"
proof -
  have "0 \<le> n * j" using assms by simp
  then show "0 \<le> i + n * j" using assms by simp
  have "n * j \<le> n * (n - 1)" using assms by (intro mult_left_mono) auto
  then show "i + n * j < n * n" using assms by (simp add: algebra_simps)
qed

lemma idx_iff:
  fixes i j n :: int
  assumes "0 \<le> i" "i < n"
  shows "k = i + n * j \<longleftrightarrow> k mod n = i \<and> k div n = j"
proof
  assume "k = i + n * j"
  then show "k mod n = i \<and> k div n = j" using assms by simp
next
  assume "k mod n = i \<and> k div n = j"
  then show "k = i + n * j" using mult_div_mod_eq [of n k] by simp
qed

lemma c_int_Some: "INT_MIN \<le> x \<Longrightarrow> x \<le> INT_MAX \<Longrightarrow> c_int x = Some x"
  by (simp add: c_int_def)

lemma square_fits:
  fixes n :: int
  assumes "0 \<le> n" "n \<le> 46340"
  shows "n * n \<le> INT_MAX"
proof -
  have "n * n \<le> 46340 * 46340" using assms by (intro mult_mono) auto
  then show ?thesis by (simp add: INT_MAX_def)
qed

lemma fits_int_sharp:
  fixes n :: int
  assumes "0 \<le> n"
  shows "n \<le> 46340 \<longleftrightarrow> n * n - 1 \<le> INT_MAX"
proof
  assume "n \<le> 46340"
  then show "n * n - 1 \<le> INT_MAX" using square_fits [OF assms] by simp
next
  assume le: "n * n - 1 \<le> INT_MAX"
  show "n \<le> 46340"
  proof (rule ccontr)
    assume "\<not> n \<le> 46340"
    then have "46341 * 46341 \<le> n * n" by (intro mult_mono) auto
    then show False using le by (simp add: INT_MAX_def)
  qed
qed

lemma idx_Some:
  fixes i j n :: int
  assumes "0 \<le> i" "i < n" "0 \<le> j" "j < n" "n \<le> 46340"
  shows "idx i n j = Some (i + n * j)"
proof -
  have n: "0 \<le> n" using assms by simp
  have b: "0 \<le> i + n * j" "i + n * j < n * n" using idx_bounds [OF assms(1-4)] .
  have m: "0 \<le> n * j" using n assms(3) by simp
  have "n * j \<le> i + n * j" using assms(1) by simp
  then have "n * j \<le> INT_MAX" "i + n * j \<le> INT_MAX"
    using b square_fits [OF n assms(5)] by linarith+
  moreover have "INT_MIN \<le> n * j" "INT_MIN \<le> i + n * j"
    using m b by (simp_all add: INT_MIN_def)
  ultimately show ?thesis by (simp add: idx_def c_int_Some)
qed

lemma pred_Some:
  fixes n :: int
  assumes "0 < n" "n \<le> 46340"
  shows "c_int (n - 1) = Some (n - 1)"
  using assms by (simp add: c_int_def INT_MIN_def INT_MAX_def)

text \<open>The loop counters stay in the range of \<open>int\<close>.\<close>

lemma increment_in_range:
  assumes "c_int n = Some n" "0 \<le> ix" "ix < n"
  shows "c_int (ix + 1) = Some (ix + 1)"
  using assms by (auto simp: c_int_def INT_MIN_def split: if_splits)

lemma grid_loop_run:
  assumes "0 \<le> ix" "nz param \<le> int (length Z)"
  shows "\<exists>Z'. grid_loop param ix Z = Some Z' \<and> length Z' = length Z \<and>
           (\<forall>k. Z' ! k = (if ix \<le> int k \<and> int k < nz param
                           then exp (zlog param (int k)) else Z ! k))"
  using assms
proof (induction param ix Z rule: grid_loop.induct)
  case (1 param ix Z)
  show ?case
  proof (cases "ix < nz param")
    case False
    then show ?thesis by (subst grid_loop.simps) simp
  next
    case True
    let ?Z1 = "Z[nat ix := exp (zmin param + zstep param * real_of_int ix)]"
    have s: "vec_set Z ix (exp (zmin param + zstep param * real_of_int ix)) = Some ?Z1"
      using True "1.prems" by (simp add: vec_set_def)
    have "\<exists>Z'. grid_loop param (ix + 1) ?Z1 = Some Z' \<and> length Z' = length ?Z1 \<and>
           (\<forall>k. Z' ! k = (if ix + 1 \<le> int k \<and> int k < nz param
                           then exp (zlog param (int k)) else ?Z1 ! k))"
      using "1.IH" [OF True s] "1.prems" by simp
    then obtain Z' where run: "grid_loop param (ix + 1) ?Z1 = Some Z'"
      and len: "length Z' = length Z"
      and nth: "\<And>k. Z' ! k = (if ix + 1 \<le> int k \<and> int k < nz param
                           then exp (zlog param (int k)) else ?Z1 ! k)"
      by auto
    have "grid_loop param ix Z = Some Z'"
      using True s run by (subst grid_loop.simps) simp
    moreover have "Z' ! k = (if ix \<le> int k \<and> int k < nz param
                           then exp (zlog param (int k)) else Z ! k)" for k
    proof (cases "int k = ix")
      case True
      then have "k = nat ix" by simp
      moreover have "nat ix < length Z" using \<open>ix < nz param\<close> "1.prems" by simp
      ultimately show ?thesis using nth [of k] True \<open>ix < nz param\<close>
        by (simp add: zlog_def)
    next
      case False
      then have "k \<noteq> nat ix" using "1.prems" by auto
      then show ?thesis using nth [of k] False by auto
    qed
    ultimately show ?thesis using len by blast
  qed
qed

lemma grid_loop_grid_ok:
  assumes "nz param \<le> int (length Z)" "grid_loop param 0 Z = Some Z'"
  shows "grid_ok param Z'"
proof -
  from grid_loop_run [of 0 param Z] assms
  have len: "length Z' = length Z"
    and nth: "\<And>k. Z' ! k = (if 0 \<le> int k \<and> int k < nz param
                           then exp (zlog param (int k)) else Z ! k)"
    by auto
  show ?thesis unfolding grid_ok_def
  proof (intro conjI allI impI)
    show "nz param \<le> int (length Z')" using len assms by simp
    fix k assume "0 \<le> k \<and> k < nz param"
    then show "Z' ! nat k = exp (zlog param k)" using nth [of "nat k"] by simp
  qed
qed

lemma row_init_run:
  assumes "grid_ok param Z" "3 \<le> nz param" "0 \<le> ix" "ix < nz param"
    "nz param * nz param \<le> int (length P)" "nz param \<le> 46340"
  shows "row_init param ix Z P =
           Some (P[nat ix := bottom param ix,
                   nat (ix + nz param * (nz param - 1)) := 1 - bottom param ix])"
proof -
  have b: "0 \<le> ix + nz param * (nz param - 1)" "ix + nz param * (nz param - 1) < nz param * nz param"
    using idx_bounds [of ix "nz param" "nz param - 1"] assms by auto
  have "nz param \<le> nz param * nz param"
    using mult_left_mono [of 1 "nz param" "nz param"] assms by simp
  then have ix: "ix < int (length P)" using assms by linarith
  have z: "vec_get Z ix = Some (exp (zlog param ix))"
    using assms by (simp add: grid_ok_def vec_get_def)
  have z0: "zlog param 0 = zmin param" by (simp add: zlog_def)
  have t1: "c_int (nz param - 1) = Some (nz param - 1)"
    using pred_Some [of "nz param"] assms by simp
  have t2: "idx ix (nz param) (nz param - 1) = Some (ix + nz param * (nz param - 1))"
    using idx_Some [of ix "nz param" "nz param - 1"] assms by simp
  show ?thesis
    unfolding row_init_def z
    using ix b assms(3,5)
    by (simp add: t1 t2 vec_set_def vec_get_def upper_arg_def z0 bottom_def Let_def)
qed

lemma inner_step_run:
  assumes "grid_ok param Z" "0 \<le> ix" "ix < nz param" "1 \<le> jx" "jx < nz param - 1"
    "nz param * nz param \<le> int (length P)" "nz param \<le> 46340"
  shows "inner_step param ix jx Z P =
           Some (P[nat (ix + nz param * jx) := interior param ix jx,
                   nat (ix + nz param * (nz param - 1)) :=
                     P ! nat (ix + nz param * (nz param - 1)) - interior param ix jx])"
proof -
  have b: "0 \<le> ix + nz param * (nz param - 1)" "ix + nz param * (nz param - 1) < nz param * nz param"
    using idx_bounds [of ix "nz param" "nz param - 1"] assms by auto
  have c: "0 \<le> ix + nz param * jx" "ix + nz param * jx < nz param * nz param"
    using idx_bounds [of ix "nz param" jx] assms by auto
  have ne: "ix + nz param * jx \<noteq> ix + nz param * (nz param - 1)"
    using assms by auto
  then have ne': "nat (ix + nz param * jx) \<noteq> nat (ix + nz param * (nz param - 1))"
    using eq_nat_nat_iff [OF c(1) b(1)] by blast
  have z: "vec_get Z ix = Some (exp (zlog param ix))" "vec_get Z jx = Some (exp (zlog param jx))"
    using assms by (simp_all add: grid_ok_def vec_get_def)
  have t1: "c_int (nz param - 1) = Some (nz param - 1)"
    using pred_Some [of "nz param"] assms by simp
  have t2: "idx ix (nz param) (nz param - 1) = Some (ix + nz param * (nz param - 1))"
    using idx_Some [of ix "nz param" "nz param - 1"] assms by simp
  have t3: "idx ix (nz param) jx = Some (ix + nz param * jx)"
    using idx_Some [of ix "nz param" jx] assms by simp
  show ?thesis
    unfolding inner_step_def z
    using b c ne' assms(6)
    by (simp add: t1 t2 t3 vec_set_def vec_get_def interior_def upper_arg_def lower_arg_def
        Let_def)
qed

lemma div_less_iff_square:
  fixes k n :: int
  assumes "0 < n"
  shows "k div n < n \<longleftrightarrow> k < n * n"
proof
  assume "k div n < n"
  then have "n * (k div n) \<le> n * (n - 1)" using assms by (intro mult_left_mono) auto
  moreover have "n * (n - 1) = n * n - n" by (simp add: algebra_simps)
  moreover have "k mod n < n" using assms by simp
  moreover have "k = n * (k div n) + k mod n" by simp
  ultimately show "k < n * n" by linarith
next
  assume lt: "k < n * n"
  show "k div n < n"
  proof (rule ccontr)
    assume "\<not> k div n < n"
    then have "n * n \<le> n * (k div n)" using assms by (intro mult_left_mono) auto
    moreover have "0 \<le> k mod n" using assms by simp
    ultimately show False using mult_div_mod_eq [of n k] lt by linarith
  qed
qed

lemma nth_update2:
  fixes a t :: int
  assumes "0 \<le> a" "0 \<le> t" "nat a < length P" "nat t < length P"
  shows "P[nat a := v, nat t := w] ! k =
           (if int k = t then w else if int k = a then v else P ! k)"
proof -
  have A: "(k = nat t) = (int k = t)" and B: "(k = nat a) = (int k = a)"
    using assms by linarith+
  have "P[nat a := v, nat t := w] ! k =
          (if k = nat t then w else if k = nat a then v else P ! k)"
    using assms(3,4) by (simp add: nth_list_update)
  then show ?thesis unfolding A B .
qed

lemma inner_loop_run:
  assumes "grid_ok param Z" "0 \<le> ix" "ix < nz param" "1 \<le> jx"
    "nz param * nz param \<le> int (length P)" "nz param \<le> 46340"
  shows "\<exists>P'. inner_loop param ix jx Z P = Some P' \<and> length P' = length P \<and>
           (\<forall>k. P' ! k =
              (if int k = ix + nz param * (nz param - 1)
               then P ! k - (\<Sum>j = jx..nz param - 2. interior param ix j)
               else if int k mod nz param = ix \<and> jx \<le> int k div nz param
                         \<and> int k div nz param < nz param - 1
               then interior param ix (int k div nz param)
               else P ! k))"
  using assms
proof (induction param ix jx Z P rule: inner_loop.induct)
  case (1 param ix jx Z P)
  let ?n = "nz param"
  let ?t = "ix + ?n * (?n - 1)"
  show ?case
  proof (cases "jx < ?n - 1")
    case False
    then have "{jx..?n - 2} = {}" by simp
    with False show ?thesis by (subst inner_loop.simps) simp
  next
    case True
    let ?a = "ix + ?n * jx"
    let ?v = "interior param ix jx"
    let ?P1 = "P[nat ?a := ?v, nat ?t := P ! nat ?t - ?v]"
    have s: "inner_step param ix jx Z P = Some ?P1"
      using inner_step_run [of param Z ix jx P] "1.prems" True by simp
    have bt: "0 \<le> ?t" "?t < ?n * ?n"
      using idx_bounds [of ix ?n "?n - 1"] "1.prems" True by auto
    have ba: "0 \<le> ?a" "?a < ?n * ?n"
      using idx_bounds [of ix ?n jx] "1.prems" True by auto
    have ne: "?a \<noteq> ?t" using True "1.prems" by auto
    have P1: "?P1 ! k = (if int k = ?t then P ! k - ?v else if int k = ?a then ?v else P ! k)" for k
    proof -
      have la: "nat ?a < length P" and lt: "nat ?t < length P"
        using ba bt "1.prems" by linarith+
      have "?P1 ! k = (if int k = ?t then P ! nat ?t - ?v else if int k = ?a then ?v else P ! k)"
        by (rule nth_update2 [OF ba(1) bt(1) la lt])
      moreover have "int k = ?t \<Longrightarrow> P ! nat ?t = P ! k" by (metis nat_int)
      ultimately show ?thesis by presburger
    qed
    have "\<exists>P'. inner_loop param ix (jx + 1) Z ?P1 = Some P' \<and> length P' = length ?P1 \<and>
           (\<forall>k. P' ! k =
              (if int k = ?t
               then ?P1 ! k - (\<Sum>j = jx + 1..?n - 2. interior param ix j)
               else if int k mod ?n = ix \<and> jx + 1 \<le> int k div ?n \<and> int k div ?n < ?n - 1
               then interior param ix (int k div ?n)
               else ?P1 ! k))"
      using "1.IH" [OF True s] "1.prems" by simp
    then obtain P' where run: "inner_loop param ix (jx + 1) Z ?P1 = Some P'"
      and len: "length P' = length P"
      and nth: "\<And>k. P' ! k =
              (if int k = ?t
               then ?P1 ! k - (\<Sum>j = jx + 1..?n - 2. interior param ix j)
               else if int k mod ?n = ix \<and> jx + 1 \<le> int k div ?n \<and> int k div ?n < ?n - 1
               then interior param ix (int k div ?n)
               else ?P1 ! k)"
      by auto
    have sum: "(\<Sum>j = jx..?n - 2. interior param ix j)
                 = ?v + (\<Sum>j = jx + 1..?n - 2. interior param ix j)"
    proof -
      have "{jx..?n - 2} = insert jx {jx + 1..?n - 2}" using True by auto
      then show ?thesis by simp
    qed
    have "inner_loop param ix jx Z P = Some P'"
      using True s run by (subst inner_loop.simps) simp
    moreover have "P' ! k =
              (if int k = ?t
               then P ! k - (\<Sum>j = jx..?n - 2. interior param ix j)
               else if int k mod ?n = ix \<and> jx \<le> int k div ?n \<and> int k div ?n < ?n - 1
               then interior param ix (int k div ?n)
               else P ! k)" for k
    proof -
      have a_iff: "int k = ?a \<longleftrightarrow> int k mod ?n = ix \<and> int k div ?n = jx"
        using idx_iff [of ix ?n "int k" jx] "1.prems" by simp
      consider "int k = ?t" | "int k \<noteq> ?t" "int k = ?a" | "int k \<noteq> ?t" "int k \<noteq> ?a" by blast
      then show ?thesis
      proof cases
        case 1
        then show ?thesis using nth [of k] P1 [of k] sum by simp
      next
        case 2
        then have "int k mod ?n = ix" "int k div ?n = jx" using a_iff by auto
        then show ?thesis using nth [of k] P1 [of k] 2 True by simp
      next
        case 3
        then have "\<not> (int k mod ?n = ix \<and> int k div ?n = jx)" using a_iff by simp
        then have "(int k mod ?n = ix \<and> jx + 1 \<le> int k div ?n \<and> int k div ?n < ?n - 1)
                 \<longleftrightarrow> (int k mod ?n = ix \<and> jx \<le> int k div ?n \<and> int k div ?n < ?n - 1)"
          by auto
        then show ?thesis using nth [of k] P1 [of k] 3 by simp
      qed
    qed
    ultimately show ?thesis using len by blast
  qed
qed

lemma row_run:
  assumes "grid_ok param Z" "3 \<le> nz param" "0 \<le> ix" "ix < nz param"
    "nz param * nz param \<le> int (length P)" "nz param \<le> 46340"
  shows "\<exists>P2. (row_init param ix Z P \<bind> inner_loop param ix 1 Z) = Some P2 \<and>
           length P2 = length P \<and>
           (\<forall>k. P2 ! k =
              (if int k < nz param * nz param \<and> int k mod nz param = ix
               then entry param ix (int k div nz param)
               else P ! k))"
proof -
  let ?n = "nz param"
  let ?t = "ix + ?n * (?n - 1)"
  let ?b = "bottom param ix"
  let ?P1 = "P[nat ix := ?b, nat ?t := 1 - ?b]"
  have s: "row_init param ix Z P = Some ?P1"
    using row_init_run [OF assms] .
  have bt: "0 \<le> ?t" "?t < ?n * ?n"
    using idx_bounds [of ix ?n "?n - 1"] assms by auto
  have ne: "ix \<noteq> ?t" using assms by auto
  have ixP: "nat ix < length P" "nat ?t < length P"
    using bt assms idx_bounds [of ix ?n 0] by auto
  have P1: "?P1 ! k = (if int k = ?t then 1 - ?b else if int k = ix then ?b else P ! k)" for k
    using nth_update2 [of ix ?t P _ _ k] bt assms(3) ixP by simp
  have "\<exists>P'. inner_loop param ix 1 Z ?P1 = Some P' \<and> length P' = length ?P1 \<and>
           (\<forall>k. P' ! k =
              (if int k = ?t
               then ?P1 ! k - (\<Sum>j = 1..?n - 2. interior param ix j)
               else if int k mod ?n = ix \<and> 1 \<le> int k div ?n \<and> int k div ?n < ?n - 1
               then interior param ix (int k div ?n)
               else ?P1 ! k))"
    using inner_loop_run [of param Z ix 1 ?P1] assms by simp
  then obtain P2 where run: "inner_loop param ix 1 Z ?P1 = Some P2"
    and len: "length P2 = length P"
    and nth: "\<And>k. P2 ! k =
              (if int k = ?t
               then ?P1 ! k - (\<Sum>j = 1..?n - 2. interior param ix j)
               else if int k mod ?n = ix \<and> 1 \<le> int k div ?n \<and> int k div ?n < ?n - 1
               then interior param ix (int k div ?n)
               else ?P1 ! k)"
    by auto
  have "(row_init param ix Z P \<bind> inner_loop param ix 1 Z) = Some P2"
    using s run by simp
  moreover have "P2 ! k =
              (if int k < ?n * ?n \<and> int k mod ?n = ix
               then entry param ix (int k div ?n)
               else P ! k)" for k
  proof -
    have t_iff: "int k = ?t \<longleftrightarrow> int k mod ?n = ix \<and> int k div ?n = ?n - 1"
      using idx_iff [of ix ?n "int k" "?n - 1"] assms by simp
    have i_iff: "int k = ix \<longleftrightarrow> int k mod ?n = ix \<and> int k div ?n = 0"
      using idx_iff [of ix ?n "int k" 0] assms by simp
    have lt_iff: "int k div ?n < ?n \<longleftrightarrow> int k < ?n * ?n"
      by (rule div_less_iff_square) (use assms(2) in linarith)
    have ixlt: "ix < ?n * ?n" using idx_bounds [of ix ?n 0] assms by simp
    have d0: "0 \<le> int k div ?n" using assms by (simp add: pos_imp_zdiv_nonneg_iff)
    show ?thesis
    proof (cases "int k < ?n * ?n \<and> int k mod ?n = ix")
      case True
      then have dl: "int k div ?n < ?n" using lt_iff by simp
      consider "int k div ?n = 0" | "1 \<le> int k div ?n" "int k div ?n < ?n - 1" | "int k div ?n = ?n - 1"
        using d0 dl by linarith
      then show ?thesis
      proof cases
        case 1
        then have "int k = ix" "int k \<noteq> ?t" using True i_iff ne by auto
        then show ?thesis using nth [of k] P1 [of k] True 1 by (simp add: entry_def)
      next
        case 2
        then have "int k \<noteq> ?t" using t_iff by simp
        then show ?thesis using nth [of k] True 2 by (simp add: entry_def)
      next
        case 3
        then have "int k = ?t" using t_iff True by simp
        then show ?thesis using nth [of k] P1 [of k] True 3 assms(2)
          by (simp add: entry_def top_def)
      qed
    next
      case False
      then have a: "int k \<noteq> ?t" and b: "int k \<noteq> ix"
        and c: "\<not> (int k mod ?n = ix \<and> 1 \<le> int k div ?n \<and> int k div ?n < ?n - 1)"
        using t_iff i_iff lt_iff ixlt bt(2) by auto
      have "P2 ! k = ?P1 ! k"
        using nth [of k] by (simp only: if_not_P [OF a] if_not_P [OF c])
      also have "\<dots> = P ! k"
        using P1 [of k] by (simp only: if_not_P [OF a] if_not_P [OF b])
      finally show ?thesis by (simp only: if_not_P [OF False])
    qed
  qed
  ultimately show ?thesis using len by blast
qed

lemma outer_loop_run:
  assumes "grid_ok param Z" "3 \<le> nz param" "0 \<le> ix"
    "nz param * nz param \<le> int (length P)" "nz param \<le> 46340"
  shows "\<exists>P'. outer_loop param ix Z P = Some P' \<and> length P' = length P \<and>
           (\<forall>k. P' ! k =
              (if int k < nz param * nz param \<and> ix \<le> int k mod nz param
               then entry param (int k mod nz param) (int k div nz param)
               else P ! k))"
  using assms
proof (induction param ix Z P rule: outer_loop.induct)
  case (1 param ix Z P)
  let ?n = "nz param"
  show ?case
  proof (cases "ix < ?n")
    case False
    have "\<not> (ix \<le> int k mod ?n)" for k
      using False "1.prems" pos_mod_bound [of ?n "int k"] by linarith
    with False show ?thesis by (subst outer_loop.simps) simp
  next
    case True
    from row_run [of param Z ix P] "1.prems" True
    obtain P2 where row: "(row_init param ix Z P \<bind> inner_loop param ix 1 Z) = Some P2"
      and len2: "length P2 = length P"
      and nth2: "\<And>k. P2 ! k =
              (if int k < ?n * ?n \<and> int k mod ?n = ix
               then entry param ix (int k div ?n) else P ! k)"
      by auto
    from row obtain P1 where r1: "row_init param ix Z P = Some P1"
      and r2: "inner_loop param ix 1 Z P1 = Some P2"
      by (auto simp: bind_eq_Some_conv)
    have "\<exists>P'. outer_loop param (ix + 1) Z P2 = Some P' \<and> length P' = length P2 \<and>
           (\<forall>k. P' ! k =
              (if int k < ?n * ?n \<and> ix + 1 \<le> int k mod ?n
               then entry param (int k mod ?n) (int k div ?n)
               else P2 ! k))"
      using "1.IH" [OF True r1 r2] "1.prems" len2 by simp
    then obtain P' where run: "outer_loop param (ix + 1) Z P2 = Some P'"
      and len: "length P' = length P"
      and nth: "\<And>k. P' ! k =
              (if int k < ?n * ?n \<and> ix + 1 \<le> int k mod ?n
               then entry param (int k mod ?n) (int k div ?n)
               else P2 ! k)"
      using len2 by auto
    have "outer_loop param ix Z P = Some P'"
      using True r1 r2 run by (subst outer_loop.simps) simp
    moreover have "P' ! k =
              (if int k < ?n * ?n \<and> ix \<le> int k mod ?n
               then entry param (int k mod ?n) (int k div ?n)
               else P ! k)" for k
      using nth [of k] nth2 [of k] by auto
    ultimately show ?thesis using len by blast
  qed
qed

lemma ar1_run:
  assumes "3 \<le> nz param" "nz param \<le> int (length Z)"
    "nz param * nz param \<le> int (length P)" "nz param \<le> 46340"
  shows "\<exists>Z' P'. ar1 param Z P = Some (Z', P') \<and>
           length Z' = length Z \<and> length P' = length P \<and>
           (\<forall>k. Z' ! k = (if int k < nz param then exp (zlog param (int k)) else Z ! k)) \<and>
           (\<forall>k. P' ! k =
              (if int k < nz param * nz param
               then entry param (int k mod nz param) (int k div nz param)
               else P ! k))"
proof -
  let ?n = "nz param"
  from grid_loop_run [of 0 param Z] assms
  obtain Z' where g: "grid_loop param 0 Z = Some Z'" and lenZ: "length Z' = length Z"
    and nthZ: "\<And>k. Z' ! k = (if 0 \<le> int k \<and> int k < ?n
                           then exp (zlog param (int k)) else Z ! k)"
    by auto
  have ok: "grid_ok param Z'" using grid_loop_grid_ok [OF assms(2) g] .
  from outer_loop_run [OF ok assms(1) _ assms(3,4), of 0]
  obtain P' where p: "outer_loop param 0 Z' P = Some P'" and lenP: "length P' = length P"
    and nthP: "\<And>k. P' ! k =
              (if int k < ?n * ?n \<and> 0 \<le> int k mod ?n
               then entry param (int k mod ?n) (int k div ?n)
               else P ! k)"
    by auto
  have m: "0 \<le> int k mod ?n" for k using assms(1) by simp
  have c: "c_int (nz param) = Some (nz param)" "c_int (nz param - 1) = Some (nz param - 1)"
    using assms(1,4) by (simp_all add: c_int_def INT_MIN_def INT_MAX_def)
  have "ar1 param Z P = Some (Z', P')" using g p c by (simp add: ar1_def)
  then show ?thesis using lenZ lenP nthZ nthP m by auto
qed

section \<open>Consequences of valid parameters\<close>

lemma pow_2: "pow x 2 = x\<^sup>2"
  by (simp add: pow_def)

lemma pow_half: "0 \<le> x \<Longrightarrow> pow x (1 / 2) = sqrt x"
proof -
  assume x: "0 \<le> x"
  have "\<lfloor>1 / 2 :: real\<rfloor> = 0" by simp
  then have "(1 / 2 :: real) \<noteq> of_int \<lfloor>1 / 2 :: real\<rfloor>" by simp
  then have "pow x (1 / 2) = x powr (1 / 2)" unfolding pow_def by (rule if_not_P)
  also have "\<dots> = sqrt x" by (rule powr_half_sqrt [OF x])
  finally show ?thesis .
qed

lemma rho_square_less:
  assumes "valid param" shows "(rho param)\<^sup>2 < 1"
proof -
  have "\<bar>rho param\<bar> < 1" using assms by (simp add: valid_def)
  then have "\<bar>rho param\<bar>\<^sup>2 < 1\<^sup>2" by (intro power_strict_mono) auto
  then show ?thesis by simp
qed

lemma sigma_z_sqrt:
  assumes "valid param"
  shows "sigma_z param = sigma param / sqrt (1 - (rho param)\<^sup>2)"
  using rho_square_less [OF assms] by (simp add: sigma_z_def pow_2 pow_half)

lemma sigma_z_pos:
  assumes "valid param" shows "0 < sigma_z param"
proof -
  have "0 < sqrt (1 - (rho param)\<^sup>2)" using rho_square_less [OF assms] by simp
  moreover have "0 < sigma param" using assms by (simp add: valid_def)
  ultimately show ?thesis unfolding sigma_z_sqrt [OF assms] by (rule divide_pos_pos [rotated])
qed

lemma zstep_pos:
  assumes "valid param" shows "0 < zstep param"
proof -
  have "0 < lambda param * sigma_z param"
    using assms sigma_z_pos [OF assms] by (simp add: valid_def)
  then have "0 < zmax param - zmin param" by (simp add: zmax_def zmin_def)
  moreover have "0 < real_of_int (nz param - 1)" using assms by (simp add: valid_def)
  ultimately show ?thesis unfolding zstep_def by (rule divide_pos_pos)
qed

lemma ar1_entries:
  assumes "3 \<le> nz param" "sized param Z0 P0" "nz param \<le> 46340"
  shows "\<exists>Z P. ar1 param Z0 P0 = Some (Z, P) \<and>
           length Z = length Z0 \<and> length P = length P0 \<and>
           (\<forall>i. 0 \<le> i \<and> i < nz param \<longrightarrow> Z ! nat i = exp (zlog param i)) \<and>
           (\<forall>i j. 0 \<le> i \<and> i < nz param \<and> 0 \<le> j \<and> j < nz param \<longrightarrow>
                    P ! nat (i + nz param * j) = entry param i j)"
proof -
  let ?n = "nz param"
  from ar1_run [of param Z0 P0] assms
  obtain Z P where run: "ar1 param Z0 P0 = Some (Z, P)"
    and len: "length Z = length Z0" "length P = length P0"
    and nthZ: "\<And>k. Z ! k = (if int k < ?n then exp (zlog param (int k)) else Z0 ! k)"
    and nthP: "\<And>k. P ! k = (if int k < ?n * ?n
                  then entry param (int k mod ?n) (int k div ?n) else P0 ! k)"
    unfolding sized_def by blast
  have "Z ! nat i = exp (zlog param i)" if "0 \<le> i \<and> i < ?n" for i
    using nthZ [of "nat i"] that by simp
  moreover have "P ! nat (i + ?n * j) = entry param i j"
    if "0 \<le> i \<and> i < ?n \<and> 0 \<le> j \<and> j < ?n" for i j
  proof -
    have b: "0 \<le> i + ?n * j" "i + ?n * j < ?n * ?n"
      using idx_bounds [of i ?n j] that by auto
    have "(i + ?n * j) mod ?n = i" "(i + ?n * j) div ?n = j" using that by auto
    then show ?thesis using nthP [of "nat (i + ?n * j)"] b by simp
  qed
  ultimately show ?thesis using run len by blast
qed

lemma valid_domain:
  assumes "valid param"
  shows "0 < 1 - (rho param)\<^sup>2" "1 - rho param \<noteq> 0" "sigma param \<noteq> 0"
    "real_of_int (nz param - 1) \<noteq> 0"
  using assms rho_square_less [OF assms] by (auto simp: valid_def)

lemma scenario5_valid: "valid scenario5" "sized scenario5 (replicate 5 0) (replicate 25 0)"
  by (simp_all add: valid_def sized_def scenario5_def)

lemma scenario5_fits: "fits_int scenario5"
  by (simp add: fits_int_def INT_MIN_def scenario5_def)

lemma scenario3_valid: "valid scenario3" "sized scenario3 (replicate 3 0) (replicate 9 0)"
  by (simp_all add: valid_def sized_def scenario3_def)

lemma scenario3_fits: "fits_int scenario3"
  by (simp add: fits_int_def INT_MIN_def scenario3_def)

section \<open>The result of \<open>ar1\<close> on valid parameters\<close>

lemma ar1_result:
  assumes "valid param" "sized param Z0 P0" "fits_int param"
  shows "\<exists>Z P. ar1 param Z0 P0 = Some (Z, P) \<and> grid_ok param Z \<and>
           (\<forall>i j. 0 \<le> i \<and> i < nz param \<and> 0 \<le> j \<and> j < nz param \<longrightarrow>
                    P ! nat (i + nz param * j) = entry param i j)"
proof -
  have n: "3 \<le> nz param" using assms(1) by (simp add: valid_def)
  have f: "nz param \<le> 46340" using assms(3) by (simp add: fits_int_def)
  from ar1_entries [OF n assms(2) f]
  obtain Z P where run: "ar1 param Z0 P0 = Some (Z, P)"
    and len: "length Z = length Z0"
    and nthZ: "\<forall>i. 0 \<le> i \<and> i < nz param \<longrightarrow> Z ! nat i = exp (zlog param i)"
    and nthP: "\<forall>i j. 0 \<le> i \<and> i < nz param \<and> 0 \<le> j \<and> j < nz param \<longrightarrow>
                    P ! nat (i + nz param * j) = entry param i j"
    by blast
  have "grid_ok param Z" using len nthZ assms(2) by (simp add: grid_ok_def sized_def)
  then show ?thesis using run nthP by blast
qed

lemma ln_grid:
  assumes "grid_ok param Z" "0 \<le> i" "i < nz param"
  shows "ln (Z ! nat i) = zlog param i"
  using assms by (simp add: grid_ok_def)

lemma Phi_diff: "Phi u - Phi l = 0.5 * erf (u / sqrt 2) - 0.5 * erf (l / sqrt 2)"
  by (simp add: Phi_def)

subsection \<open>The row telescopes\<close>

text \<open>
  The lower edge of bin \<open>j + 1\<close> is the upper edge of bin \<open>j\<close>, so the bottom bin and the
  interior bins up to \<open>m\<close> add up to the distribution function at the upper edge of bin
  \<open>m\<close>, and the top bin is the mass above the upper edge of bin \<open>nz - 2\<close>.
\<close>

lemma lower_arg_Suc: "lower_arg param i (j + 1) = upper_arg param i j"
  by (simp add: lower_arg_def upper_arg_def zlog_def diff_divide_distrib add_divide_distrib
      algebra_simps)

lemma partial_row_sum:
  "bottom param i + (\<Sum>j = 1..int m. interior param i j)
     = 0.5 + 0.5 * erf (upper_arg param i (int m) / sqrt 2)"
proof (induction m)
  case 0
  show ?case by (simp add: bottom_def)
next
  case (Suc m)
  have c: "int (Suc m) = int m + 1" by simp
  have "{1..int m + 1} = insert (int m + 1) {1..int m}" by auto
  then have a: "(\<Sum>j = 1..int m + 1. interior param i j)
               = interior param i (int m + 1) + (\<Sum>j = 1..int m. interior param i j)"
    by simp
  have b: "interior param i (int m + 1)
      = 0.5 * erf (upper_arg param i (int m + 1) / sqrt 2)
          - 0.5 * erf (upper_arg param i (int m) / sqrt 2)"
    by (simp add: interior_def lower_arg_Suc)
  show ?case unfolding c a b using Suc by linarith
qed

lemma top_closed:
  assumes "3 \<le> nz param"
  shows "top param i = 0.5 - 0.5 * erf (upper_arg param i (nz param - 2) / sqrt 2)"
proof -
  have "int (nat (nz param - 2)) = nz param - 2" using assms by simp
  then show ?thesis
    using partial_row_sum [of param i "nat (nz param - 2)"] by (simp add: top_def)
qed

lemma row_sum_entry:
  assumes "3 \<le> nz param"
  shows "(\<Sum>j = 0..nz param - 1. entry param i j) = 1"
proof -
  let ?n = "nz param"
  have set: "{0..?n - 1} = insert 0 (insert (?n - 1) {1..?n - 2})" using assms by auto
  have "(\<Sum>j = 1..?n - 2. entry param i j) = (\<Sum>j = 1..?n - 2. interior param i j)"
    by (rule sum.cong) (auto simp: entry_def)
  moreover have "entry param i 0 = bottom param i" by (simp add: entry_def)
  moreover have "entry param i (?n - 1) = top param i" using assms by (simp add: entry_def)
  moreover have "(\<Sum>j = 0..?n - 1. entry param i j)
      = entry param i 0 + (entry param i (?n - 1) + (\<Sum>j = 1..?n - 2. entry param i j))"
    unfolding set using assms by simp
  ultimately show ?thesis by (simp add: top_def)
qed

lemma erf_bounds: "- 1 \<le> erf x" "erf x \<le> 1"
  by (rule erf_ge_minus_1, rule erf_le_1)

lemma bottom_bounds: "0 \<le> bottom param i" "bottom param i \<le> 1"
  using erf_bounds [of "upper_arg param i 0 / sqrt 2"] by (simp_all add: bottom_def)

lemma top_bounds:
  assumes "3 \<le> nz param"
  shows "0 \<le> top param i" "top param i \<le> 1"
  using erf_bounds [of "upper_arg param i (nz param - 2) / sqrt 2"]
  by (simp_all add: top_closed [OF assms])

lemma interior_bounds:
  assumes "valid param"
  shows "0 \<le> interior param i j" "interior param i j \<le> 1"
proof -
  have "0 < zstep param" "0 < sigma param"
    using zstep_pos [OF assms] assms by (simp_all add: valid_def)
  then have "0 \<le> 0.5 * zstep param / sigma param" by simp
  then have "lower_arg param i j \<le> upper_arg param i j"
    by (simp add: lower_arg_def upper_arg_def)
  then have "lower_arg param i j / sqrt 2 \<le> upper_arg param i j / sqrt 2"
    by (simp add: divide_right_mono)
  then have "erf (lower_arg param i j / sqrt 2) \<le> erf (upper_arg param i j / sqrt 2)"
    by (rule erf_mono)
  then show "0 \<le> interior param i j" by (simp add: interior_def)
  show "interior param i j \<le> 1"
    using erf_bounds [of "upper_arg param i j / sqrt 2"]
      erf_bounds [of "lower_arg param i j / sqrt 2"]
    by (simp add: interior_def)
qed

lemma entry_bounds:
  assumes "valid param"
  shows "0 \<le> entry param i j" "entry param i j \<le> 1"
proof -
  have n: "3 \<le> nz param" using assms by (simp add: valid_def)
  show "0 \<le> entry param i j"
    using bottom_bounds(1) interior_bounds(1) [OF assms] top_bounds(1) [OF n]
    by (simp add: entry_def)
  show "entry param i j \<le> 1"
    using bottom_bounds(2) interior_bounds(2) [OF assms] top_bounds(2) [OF n]
    by (simp add: entry_def)
qed

subsection \<open>The parallel formulation\<close>

lemma parallel_cell_bottom: "parallel_cell param i 0 = bottom param i"
  by (simp add: parallel_cell_def bottom_def upper_arg_def zlog_def Phi_def)

lemma parallel_cell_interior: "j \<noteq> 0 \<Longrightarrow> parallel_cell param i j = interior param i j"
  by (simp add: parallel_cell_def interior_def upper_arg_def lower_arg_def zlog_def Phi_def)

lemma parallel_entry_eq:
  assumes "3 \<le> nz param" "0 \<le> j" "j < nz param"
  shows "parallel_entry param i j = entry param i j"
proof -
  let ?n = "nz param"
  have set: "{0..?n - 2} = insert 0 {1..?n - 2}" using assms by auto
  have "(\<Sum>j' = 1..?n - 2. parallel_cell param i j') = (\<Sum>j' = 1..?n - 2. interior param i j')"
    by (rule sum.cong) (auto simp: parallel_cell_interior)
  then have "(\<Sum>j' = 0..?n - 2. parallel_cell param i j')
               = bottom param i + (\<Sum>j' = 1..?n - 2. interior param i j')"
    unfolding set by (simp add: parallel_cell_bottom)
  then show ?thesis
    using assms by (auto simp: parallel_entry_def entry_def top_def parallel_cell_bottom
        parallel_cell_interior)
qed

subsection \<open>Symmetries\<close>

lemma entry_rho_zero:
  assumes "rho param = 0"
  shows "entry param i j = entry param i' j"
proof -
  have u: "upper_arg param i k = upper_arg param i' k" for k
    using assms by (simp add: upper_arg_def)
  have l: "lower_arg param i k = lower_arg param i' k" for k
    using assms by (simp add: lower_arg_def)
  have "bottom param i = bottom param i'" by (simp add: bottom_def u)
  moreover have "interior param i k = interior param i' k" for k
    by (simp add: interior_def u l)
  ultimately show ?thesis by (simp add: entry_def top_def)
qed

lemma zlog_reflect:
  assumes "valid param" "mu param = 0"
  shows "zlog param (nz param - 1 - i) = - zlog param i"
proof -
  let ?m = "real_of_int (nz param - 1)"
  have m: "?m \<noteq> 0" using assms(1) by (simp add: valid_def)
  have z: "zmax param = - zmin param" using assms(2) by (simp add: zmax_def zmin_def mu_z_def)
  have "zstep param * ?m = zmax param - zmin param" using m by (simp add: zstep_def)
  then have s: "zstep param * ?m = - 2 * zmin param" using z by simp
  have "zlog param (nz param - 1 - i) = zmin param + (zstep param * ?m - zstep param * real_of_int i)"
    by (simp add: zlog_def algebra_simps)
  also have "\<dots> = - zlog param i" unfolding s by (simp add: zlog_def)
  finally show ?thesis .
qed

lemma args_reflect:
  assumes "valid param" "mu param = 0"
  shows "upper_arg param (nz param - 1 - i) (nz param - 1 - j) = - lower_arg param i j"
    and "lower_arg param (nz param - 1 - i) (nz param - 1 - j) = - upper_arg param i j"
  unfolding upper_arg_def lower_arg_def zlog_reflect [OF assms] assms(2)
  by (simp_all add: diff_divide_distrib add_divide_distrib)

lemma interior_reflect:
  assumes "valid param" "mu param = 0"
  shows "interior param (nz param - 1 - i) (nz param - 1 - j) = interior param i j"
  unfolding interior_def args_reflect [OF assms] by (simp add: erf_minus)

lemma top_reflect:
  assumes "valid param" "mu param = 0"
  shows "top param (nz param - 1 - i) = bottom param i"
proof -
  let ?n = "nz param"
  have n: "3 \<le> ?n" using assms(1) by (simp add: valid_def)
  have "upper_arg param (?n - 1 - i) (?n - 2) = upper_arg param (?n - 1 - i) (?n - 1 - 1)"
    by simp
  also have "\<dots> = - lower_arg param i (0 + 1)"
    using args_reflect(1) [OF assms, of i 1] by simp
  also have "\<dots> = - upper_arg param i 0" by (simp only: lower_arg_Suc)
  finally have "upper_arg param (?n - 1 - i) (?n - 2) = - upper_arg param i 0" .
  then show ?thesis by (simp add: top_closed [OF n] bottom_def erf_minus)
qed

lemma entry_reflect:
  assumes "valid param" "mu param = 0" "0 \<le> j" "j < nz param"
  shows "entry param (nz param - 1 - i) (nz param - 1 - j) = entry param i j"
proof -
  let ?n = "nz param"
  have n: "3 \<le> ?n" using assms(1) by (simp add: valid_def)
  consider "j = 0" | "1 \<le> j" "j \<le> ?n - 2" | "j = ?n - 1" using assms(3,4) by linarith
  then show ?thesis
  proof cases
    case 1
    then show ?thesis using n top_reflect [OF assms(1,2), of i] by (simp add: entry_def)
  next
    case 2
    then show ?thesis using interior_reflect [OF assms(1,2), of i j] by (simp add: entry_def)
  next
    case 3
    have "top param i = bottom param (?n - 1 - i)"
      using top_reflect [OF assms(1,2), of "?n - 1 - i"] by simp
    then show ?thesis using 3 n by (simp add: entry_def)
  qed
qed

subsection \<open>The frame of the loops\<close>

text \<open>
  For vectors of sufficient size and any \<open>nz\<close>, every access is in range and no element
  from index \<open>nz * nz\<close> on is written.
\<close>

lemma preserved_refl: "preserved n v v"
  by (simp add: preserved_def)

lemma preserved_trans: "preserved n u v \<Longrightarrow> preserved n v w \<Longrightarrow> preserved n u w"
  by (simp add: preserved_def)

lemma vec_set_preserved:
  assumes "0 \<le> i" "i < n" "n \<le> int (length v)"
  shows "\<exists>v'. vec_set v i x = Some v' \<and> preserved n v v'"
proof -
  have "vec_set v i x = Some (v[nat i := x])" using assms by (simp add: vec_set_def)
  moreover have "preserved n v (v[nat i := x])"
    using assms by (auto simp: preserved_def nth_list_update)
  ultimately show ?thesis by blast
qed

lemma vec_get_total:
  assumes "0 \<le> i" "i < n" "n \<le> int (length v)"
  shows "\<exists>x. vec_get v i = Some x"
  using assms by (simp add: vec_get_def)

lemma row_init_total:
  assumes "0 \<le> ix" "ix < nz param" "nz param \<le> int (length Z)"
    "nz param * nz param \<le> int (length P)" "nz param \<le> 46340"
  shows "\<exists>P'. row_init param ix Z P = Some P' \<and> preserved (nz param * nz param) P P'"
proof -
  let ?n = "nz param"
  have bt: "0 \<le> ix + ?n * (?n - 1)" "ix + ?n * (?n - 1) < ?n * ?n"
    using idx_bounds [of ix ?n "?n - 1"] assms by auto
  have bi: "ix < ?n * ?n" using idx_bounds [of ix ?n 0] assms by simp
  obtain z where z: "vec_get Z ix = Some z"
    using vec_get_total [OF assms(1,2,3)] by blast
  let ?x = "0.5 + 0.5 * erf (((zmin param - mu param - rho param * ln z) / sigma param
                      + 0.5 * zstep param / sigma param) / sqrt 2)"
  obtain P1 where P1: "vec_set P ix ?x = Some P1" and pr1: "preserved (?n * ?n) P P1"
    using vec_set_preserved [OF assms(1) bi assms(4)] by blast
  have len1: "?n * ?n \<le> int (length P1)" using pr1 assms(4) by (simp add: preserved_def)
  obtain p where p: "vec_get P1 ix = Some p"
    using vec_get_total [OF assms(1) bi len1] by blast
  obtain P2 where P2: "vec_set P1 (ix + ?n * (?n - 1)) (1 - p) = Some P2"
    and pr2: "preserved (?n * ?n) P1 P2"
    using vec_set_preserved [OF bt len1] by blast
  have t1: "c_int (?n - 1) = Some (?n - 1)"
    using pred_Some [of ?n] assms by simp
  have t2: "idx ix ?n (?n - 1) = Some (ix + ?n * (?n - 1))"
    using idx_Some [of ix ?n "?n - 1"] assms by simp
  have "row_init param ix Z P = Some P2"
    using z P1 p P2 by (simp add: row_init_def Let_def t1 t2)
  then show ?thesis using preserved_trans [OF pr1 pr2] by blast
qed

lemma inner_step_total:
  assumes "0 \<le> ix" "ix < nz param" "1 \<le> jx" "jx < nz param - 1"
    "nz param \<le> int (length Z)" "nz param * nz param \<le> int (length P)"
    "nz param \<le> 46340"
  shows "\<exists>P'. inner_step param ix jx Z P = Some P' \<and> preserved (nz param * nz param) P P'"
proof -
  let ?n = "nz param"
  let ?a = "ix + ?n * jx" and ?t = "ix + ?n * (?n - 1)"
  have bt: "0 \<le> ?t" "?t < ?n * ?n"
    using idx_bounds [of ix ?n "?n - 1"] assms by auto
  have ba: "0 \<le> ?a" "?a < ?n * ?n"
    using idx_bounds [of ix ?n jx] assms by auto
  obtain zj where zj: "vec_get Z jx = Some zj"
    using vec_get_total [of jx ?n Z] assms by auto
  obtain zi where zi: "vec_get Z ix = Some zi"
    using vec_get_total [OF assms(1,2,5)] by blast
  let ?x = "0.5 * erf (((ln zj - mu param - rho param * ln zi) / sigma param
                      + 0.5 * zstep param / sigma param) / sqrt 2)
            - 0.5 * erf (((ln zj - mu param - rho param * ln zi) / sigma param
                      - 0.5 * zstep param / sigma param) / sqrt 2)"
  obtain P1 where P1: "vec_set P ?a ?x = Some P1" and pr1: "preserved (?n * ?n) P P1"
    using vec_set_preserved [OF ba assms(6)] by blast
  have len1: "?n * ?n \<le> int (length P1)" using pr1 assms(6) by (simp add: preserved_def)
  obtain top where top: "vec_get P1 ?t = Some top"
    using vec_get_total [OF bt len1] by blast
  obtain p where p: "vec_get P1 ?a = Some p"
    using vec_get_total [OF ba len1] by blast
  obtain P2 where P2: "vec_set P1 ?t (top - p) = Some P2"
    and pr2: "preserved (?n * ?n) P1 P2"
    using vec_set_preserved [OF bt len1] by blast
  have t1: "c_int (?n - 1) = Some (?n - 1)"
    using pred_Some [of ?n] assms by simp
  have t2: "idx ix ?n (?n - 1) = Some ?t"
    using idx_Some [of ix ?n "?n - 1"] assms by simp
  have t3: "idx ix ?n jx = Some ?a"
    using idx_Some [of ix ?n jx] assms by simp
  have "inner_step param ix jx Z P = Some P2"
    using zj zi P1 top p P2 by (simp add: inner_step_def Let_def t1 t2 t3)
  then show ?thesis using preserved_trans [OF pr1 pr2] by blast
qed

lemma inner_loop_total:
  assumes "0 \<le> ix" "ix < nz param" "1 \<le> jx"
    "nz param \<le> int (length Z)" "nz param * nz param \<le> int (length P)"
    "nz param \<le> 46340"
  shows "\<exists>P'. inner_loop param ix jx Z P = Some P' \<and> preserved (nz param * nz param) P P'"
  using assms
proof (induction param ix jx Z P rule: inner_loop.induct)
  case (1 param ix jx Z P)
  let ?n = "nz param"
  show ?case
  proof (cases "jx < ?n - 1")
    case False
    then show ?thesis by (subst inner_loop.simps) (simp add: preserved_refl)
  next
    case True
    from inner_step_total [of ix param jx Z P] "1.prems" True
    obtain P1 where s: "inner_step param ix jx Z P = Some P1"
      and pr1: "preserved (?n * ?n) P P1" by blast
    have len1: "?n * ?n \<le> int (length P1)" using pr1 "1.prems" by (simp add: preserved_def)
    from "1.IH" [OF True s] "1.prems" len1
    obtain P' where run: "inner_loop param ix (jx + 1) Z P1 = Some P'"
      and pr2: "preserved (?n * ?n) P1 P'" by auto
    have "inner_loop param ix jx Z P = Some P'"
      using True s run by (subst inner_loop.simps) simp
    then show ?thesis using preserved_trans [OF pr1 pr2] by blast
  qed
qed

lemma outer_loop_total:
  assumes "0 \<le> ix" "nz param \<le> int (length Z)" "nz param * nz param \<le> int (length P)"
    "nz param \<le> 46340"
  shows "\<exists>P'. outer_loop param ix Z P = Some P' \<and> preserved (nz param * nz param) P P'"
  using assms
proof (induction param ix Z P rule: outer_loop.induct)
  case (1 param ix Z P)
  let ?n = "nz param"
  show ?case
  proof (cases "ix < ?n")
    case False
    then show ?thesis by (subst outer_loop.simps) (simp add: preserved_refl)
  next
    case True
    from row_init_total [of ix param Z P] "1.prems" True
    obtain P1 where r1: "row_init param ix Z P = Some P1"
      and pr1: "preserved (?n * ?n) P P1" by blast
    have len1: "?n * ?n \<le> int (length P1)" using pr1 "1.prems" by (simp add: preserved_def)
    from inner_loop_total [of ix param 1 Z P1] "1.prems" True len1
    obtain P2 where r2: "inner_loop param ix 1 Z P1 = Some P2"
      and pr2: "preserved (?n * ?n) P1 P2" by auto
    have len2: "?n * ?n \<le> int (length P2)" using pr2 len1 by (simp add: preserved_def)
    from "1.IH" [OF True r1 r2] "1.prems" len2
    obtain P' where run: "outer_loop param (ix + 1) Z P2 = Some P'"
      and pr3: "preserved (?n * ?n) P2 P'" by auto
    have "outer_loop param ix Z P = Some P'"
      using True r1 r2 run by (subst outer_loop.simps) simp
    then show ?thesis using preserved_trans [OF preserved_trans [OF pr1 pr2] pr3] by blast
  qed
qed

lemma ar1_preserves:
  assumes "sized param Z0 P0" "fits_int param"
  shows "\<exists>Z P. ar1 param Z0 P0 = Some (Z, P) \<and>
           length Z = length Z0 \<and> length P = length P0 \<and>
           (\<forall>k. nz param \<le> int k \<longrightarrow> Z ! k = Z0 ! k) \<and>
           (\<forall>k. nz param * nz param \<le> int k \<longrightarrow> P ! k = P0 ! k)"
proof -
  let ?n = "nz param"
  have lz: "?n \<le> int (length Z0)" and lp: "?n * ?n \<le> int (length P0)"
    using assms(1) by (simp_all add: sized_def)
  have f: "INT_MIN < ?n" "?n \<le> 46340" using assms(2) by (simp_all add: fits_int_def)
  from grid_loop_run [of 0 param Z0] lz
  obtain Z where g: "grid_loop param 0 Z0 = Some Z" and lenZ: "length Z = length Z0"
    and nthZ: "\<And>k. Z ! k = (if 0 \<le> int k \<and> int k < ?n
                           then exp (zlog param (int k)) else Z0 ! k)"
    by auto
  have lz': "?n \<le> int (length Z)" using lz lenZ by simp
  from outer_loop_total [of 0 param Z P0] lz' lp f(2)
  obtain P where p: "outer_loop param 0 Z P0 = Some P" and pr: "preserved (?n * ?n) P0 P"
    by auto
  have c: "c_int ?n = Some ?n" "c_int (?n - 1) = Some (?n - 1)"
    using f by (simp_all add: c_int_def INT_MIN_def INT_MAX_def)
  have "ar1 param Z0 P0 = Some (Z, P)" using g p c by (simp add: ar1_def)
  moreover have "Z ! k = Z0 ! k" if "?n \<le> int k" for k using nthZ [of k] that by simp
  ultimately show ?thesis using lenZ pr by (auto simp: preserved_def)
qed

subsection \<open>The first index outside the range of \<open>int\<close>\<close>

text \<open>
  For \<open>nz = 46341\<close> the index \<open>ix + nz*(nz-1)\<close> of line 64 is \<open>INT_MAX + 1\<close> in row
  \<open>ix = 41708\<close>: the program has no defined result, whatever the vectors are.
\<close>

lemma scenario_overflow_valid:
  "valid scenario_overflow"
  "sized scenario_overflow (replicate 46341 0) (replicate 2147488281 0)"
  by (simp_all add: valid_def sized_def scenario_overflow_def)

lemma row_init_overflow: "row_init scenario_overflow 41708 Z P = None"
proof -
  have "c_int (nz scenario_overflow - 1) = Some 46340"
    by (simp add: c_int_def scenario_overflow_def INT_MIN_def INT_MAX_def)
  moreover have "idx 41708 (nz scenario_overflow) 46340 = None"
    by (simp add: idx_def c_int_def scenario_overflow_def INT_MIN_def INT_MAX_def)
  ultimately show ?thesis by (simp add: row_init_def Let_def bind_eq_None_conv)
qed

lemma outer_loop_overflow:
  assumes "0 \<le> ix" "ix \<le> k" "k < nz param" "\<And>Z P. row_init param k Z P = None"
  shows "outer_loop param ix Z P = None"
  using assms
proof (induction param ix Z P rule: outer_loop.induct)
  case (1 param ix Z P)
  have lt: "ix < nz param" using "1.prems" by simp
  show ?case
  proof (cases "row_init param ix Z P")
    case None
    then show ?thesis using lt by (subst outer_loop.simps) simp
  next
    case r1: (Some P1)
    then have ne: "ix \<noteq> k" using "1.prems"(4) by auto
    show ?thesis
    proof (cases "inner_loop param ix 1 Z P1")
      case None
      then show ?thesis using lt r1 by (subst outer_loop.simps) simp
    next
      case r2: (Some P2)
      have "outer_loop param (ix + 1) Z P2 = None"
        using "1.IH" [OF lt r1 r2] "1.prems" ne by simp
      then show ?thesis using lt r1 r2 by (subst outer_loop.simps) simp
    qed
  qed
qed

lemma ar1_overflow: "ar1 scenario_overflow Z P = None"
proof -
  have "outer_loop scenario_overflow 0 Z' P = None" for Z'
  proof (rule outer_loop_overflow [of 0 41708])
    show "(0::int) \<le> 0" "(0::int) \<le> 41708" by simp_all
    show "41708 < nz scenario_overflow" by (simp add: scenario_overflow_def)
    show "row_init scenario_overflow 41708 Z P = None" for Z P by (rule row_init_overflow)
  qed
  then show ?thesis by (simp add: ar1_def bind_eq_None_conv)
qed

subsection \<open>Two properties of the idealised program\<close>

text \<open>
  Over exact arithmetic the grid is positive and strictly increasing, and for \<open>rho = 0\<close>
  all rows of the matrix are equal. Both rest on \<open>exp\<close> and \<open>log\<close> being the exact
  functions: in floating point \<open>exp (zmin + zstep * i)\<close> can round to equal values, to
  zero or to infinity, and then neither property says anything about the program.
\<close>

lemma grid_increasing_exact:
  assumes "valid param" "sized param Z0 P0" "fits_int param"
  shows "\<exists>Z P. ar1 param Z0 P0 = Some (Z, P) \<and> length Z = length Z0 \<and>
           (\<forall>i. 0 \<le> i \<and> i < nz param \<longrightarrow> 0 < Z ! nat i) \<and>
           (\<forall>i. 0 \<le> i \<and> i \<le> nz param - 2 \<longrightarrow> Z ! nat i < Z ! nat (i + 1))"
proof -
  have n: "3 \<le> nz param" using assms(1) by (simp add: valid_def)
  have f: "nz param \<le> 46340" using assms(3) by (simp add: fits_int_def)
  from ar1_entries [OF n assms(2) f]
  obtain Z P where run: "ar1 param Z0 P0 = Some (Z, P)" and len: "length Z = length Z0"
    and nthZ: "\<And>i. 0 \<le> i \<and> i < nz param \<Longrightarrow> Z ! nat i = exp (zlog param i)"
    by blast
  have "0 < Z ! nat i" if "0 \<le> i \<and> i < nz param" for i
    using nthZ [OF that] by simp
  moreover have "Z ! nat i < Z ! nat (i + 1)" if "0 \<le> i \<and> i \<le> nz param - 2" for i
  proof -
    have "zlog param i < zlog param (i + 1)"
      using zstep_pos [OF assms(1)] by (simp add: zlog_def algebra_simps)
    then show ?thesis using nthZ [of i] nthZ [of "i + 1"] that by simp
  qed
  ultimately show ?thesis using run len by blast
qed

lemma rows_identical_exact:
  assumes "valid param" "sized param Z0 P0" "rho param = 0"
    "0 \<le> i" "i < nz param" "0 \<le> i'" "i' < nz param" "0 \<le> j" "j < nz param"
    and fits: "fits_int param"
  shows "\<exists>Z P. ar1 param Z0 P0 = Some (Z, P) \<and>
           P ! nat (i + nz param * j) = P ! nat (i' + nz param * j)"
proof -
  from ar1_result [OF assms(1,2) fits]
  obtain Z P where run: "ar1 param Z0 P0 = Some (Z, P)"
    and nthP: "\<And>i j. 0 \<le> i \<and> i < nz param \<and> 0 \<le> j \<and> j < nz param \<Longrightarrow>
                    P ! nat (i + nz param * j) = entry param i j"
    by blast
  have "P ! nat (i + nz param * j) = entry param i j" using nthP [of i j] assms by simp
  moreover have "P ! nat (i' + nz param * j) = entry param i' j" using nthP [of i' j] assms by simp
  ultimately show ?thesis using run entry_rho_zero [OF assms(3), of i j i'] by simp
qed

section \<open>The claims\<close>

text \<open>
  Every theorem below is over exact real arithmetic, for parameters that satisfy \<open>valid\<close>
  (where the claim asks for valid parameters) and \<open>fits_int\<close>, and vectors that satisfy
  \<open>sized\<close>. Each one states that \<open>ar1\<close> returns a grid \<open>Z\<close> and a matrix \<open>P\<close>, and a
  property of them. The bound on \<open>nz\<close> is needed: at \<open>nz = 46341\<close>, with valid parameters
  and vectors of sufficient size, \<open>ar1\<close> has no defined result.
\<close>

text \<open>
  Claim C1, amended. For valid parameters with \<open>nz \<le> 46340\<close> and every origin state
  \<open>i\<close> in \<open>0..nz-1\<close>, the entries \<open>P[i + nz*j]\<close> of row \<open>i\<close>, for \<open>j = 0..nz-1\<close>, add
  up to exactly \<open>1\<close>: the top bin holds one minus the other entries of the row.
\<close>

theorem ar1_row_sum:
  assumes "valid param" "sized param Z0 P0" "0 \<le> i" "i < nz param"
    and fits: "fits_int param"
  shows "\<exists>Z P. ar1 param Z0 P0 = Some (Z, P) \<and>
           (\<Sum>j = 0..nz param - 1. P ! nat (i + nz param * j)) = 1"
proof -
  have n: "3 \<le> nz param" using assms(1) by (simp add: valid_def)
  from ar1_result [OF assms(1,2) fits]
  obtain Z P where run: "ar1 param Z0 P0 = Some (Z, P)"
    and nthP: "\<And>i j. 0 \<le> i \<and> i < nz param \<and> 0 \<le> j \<and> j < nz param \<Longrightarrow>
                    P ! nat (i + nz param * j) = entry param i j"
    by blast
  have "(\<Sum>j = 0..nz param - 1. P ! nat (i + nz param * j))
          = (\<Sum>j = 0..nz param - 1. entry param i j)"
    by (rule sum.cong) (use nthP assms(3,4) in auto)
  then show ?thesis using run row_sum_entry [OF n] by auto
qed

theorem ar1_row_sum_witness:
  "valid scenario5 \<and> sized scenario5 (replicate 5 0) (replicate 25 0) \<and>
   fits_int scenario5 \<and>
   (0::int) \<le> 2 \<and> 2 < nz scenario5 \<and>
   (\<exists>Z P. ar1 scenario5 (replicate 5 0) (replicate 25 0) = Some (Z, P) \<and>
      (\<Sum>j = 0..nz scenario5 - 1. P ! nat (2 + nz scenario5 * j)) = 1)"
proof -
  have i: "(0::int) \<le> 2" "2 < nz scenario5" by (simp_all add: scenario5_def)
  from ar1_row_sum [OF scenario5_valid i scenario5_fits] show ?thesis
    using scenario5_valid i scenario5_fits by blast
qed

theorem ar1_row_sum_counterexample:
  "valid scenario_overflow \<and>
   sized scenario_overflow (replicate 46341 0) (replicate 2147488281 0) \<and>
   (0::int) \<le> 0 \<and> 0 < nz scenario_overflow \<and>
   ar1 scenario_overflow (replicate 46341 0) (replicate 2147488281 0) = None"
  by (intro conjI scenario_overflow_valid ar1_overflow) (simp_all add: scenario_overflow_def)

text \<open>
  Claim C2, amended. For valid parameters with \<open>nz \<le> 46340\<close> and every \<open>i\<close> in
  \<open>0..nz-1\<close> the grid holds
  \<open>Z[i] = exp (zmin + zstep * i)\<close>, where \<open>sigma_z = sigma / sqrt (1 - rho\<^sup>2)\<close>,
  \<open>mu_z = mu / (1 - rho)\<close>, \<open>zmin = mu_z - lambda * sigma_z\<close>,
  \<open>zmax = mu_z + lambda * sigma_z\<close> and \<open>zstep = (zmax - zmin) / (nz - 1)\<close>.
\<close>

theorem ar1_grid_values:
  assumes "valid param" "sized param Z0 P0" "0 \<le> i" "i < nz param"
    and fits: "fits_int param"
  shows "\<exists>Z P. ar1 param Z0 P0 = Some (Z, P) \<and>
           Z ! nat i = exp (zmin param + zstep param * real_of_int i) \<and>
           sigma_z param = sigma param / sqrt (1 - (rho param)\<^sup>2) \<and>
           mu_z param = mu param / (1 - rho param) \<and>
           zmin param = mu_z param - lambda param * sigma_z param \<and>
           zmax param = mu_z param + lambda param * sigma_z param \<and>
           zstep param = (zmax param - zmin param) / real_of_int (nz param - 1)"
proof -
  have n: "3 \<le> nz param" using assms(1) by (simp add: valid_def)
  have f: "nz param \<le> 46340" using fits by (simp add: fits_int_def)
  from ar1_entries [OF n assms(2) f]
  obtain Z P where run: "ar1 param Z0 P0 = Some (Z, P)"
    and nthZ: "\<And>i. 0 \<le> i \<and> i < nz param \<Longrightarrow> Z ! nat i = exp (zlog param i)"
    by blast
  have "Z ! nat i = exp (zmin param + zstep param * real_of_int i)"
    using nthZ [of i] assms(3,4) by (simp add: zlog_def)
  moreover note sigma_z_sqrt [OF assms(1)]
  moreover have "mu_z param = mu param / (1 - rho param)" by (simp add: mu_z_def)
  moreover have "zmin param = mu_z param - lambda param * sigma_z param" by (simp add: zmin_def)
  moreover have "zmax param = mu_z param + lambda param * sigma_z param" by (simp add: zmax_def)
  moreover have "zstep param = (zmax param - zmin param) / real_of_int (nz param - 1)"
    by (simp add: zstep_def)
  ultimately show ?thesis using run by blast
qed

theorem ar1_grid_values_witness:
  "valid scenario5 \<and> sized scenario5 (replicate 5 0) (replicate 25 0) \<and>
   fits_int scenario5 \<and>
   (0::int) \<le> 2 \<and> 2 < nz scenario5 \<and>
   (\<exists>Z P. ar1 scenario5 (replicate 5 0) (replicate 25 0) = Some (Z, P) \<and>
      Z ! nat 2 = exp (zmin scenario5 + zstep scenario5 * real_of_int 2) \<and>
      sigma_z scenario5 = sigma scenario5 / sqrt (1 - (rho scenario5)\<^sup>2))"
proof -
  have i: "(0::int) \<le> 2" "2 < nz scenario5" by (simp_all add: scenario5_def)
  from ar1_grid_values [OF scenario5_valid i scenario5_fits] show ?thesis
    using scenario5_valid i scenario5_fits by blast
qed

theorem ar1_grid_values_counterexample:
  "valid scenario_overflow \<and>
   sized scenario_overflow (replicate 46341 0) (replicate 2147488281 0) \<and>
   (0::int) \<le> 1 \<and> 1 < nz scenario_overflow \<and>
   ar1 scenario_overflow (replicate 46341 0) (replicate 2147488281 0) = None"
  by (intro conjI scenario_overflow_valid ar1_overflow) (simp_all add: scenario_overflow_def)

text \<open>
  Claim C3, amended. For valid parameters with \<open>nz \<le> 46340\<close>, every origin state \<open>i\<close>
  and every interior destination state \<open>j\<close> in \<open>1..nz-2\<close>, the entry \<open>P[i + nz*j]\<close> is
  the difference of the standard normal distribution function at the arguments
  \<open>(log Z[j] - mu - rho * log Z[i]) / sigma + 0.5 * zstep / sigma\<close> and
  \<open>(log Z[j] - mu - rho * log Z[i]) / sigma - 0.5 * zstep / sigma\<close>; the inner loop at
  \<open>j\<close> runs its body and goes on at \<open>j + 1\<close>; and the body, run at \<open>(i, j)\<close> on any
  matrix \<open>Q\<close> of sufficient size, stores this amount and subtracts it from the running
  top bin \<open>Q[i + nz*(nz-1)]\<close>.
\<close>

theorem ar1_interior_bins:
  assumes "valid param" "sized param Z0 P0" "0 \<le> i" "i < nz param"
    "1 \<le> j" "j \<le> nz param - 2"
    and fits: "fits_int param"
  shows "\<exists>Z P. ar1 param Z0 P0 = Some (Z, P) \<and>
           P ! nat (i + nz param * j) =
             Phi ((ln (Z ! nat j) - mu param - rho param * ln (Z ! nat i)) / sigma param
                    + 0.5 * zstep param / sigma param)
             - Phi ((ln (Z ! nat j) - mu param - rho param * ln (Z ! nat i)) / sigma param
                    - 0.5 * zstep param / sigma param) \<and>
           (\<forall>Q. inner_loop param i j Z Q
                  = inner_step param i j Z Q \<bind> inner_loop param i (j + 1) Z) \<and>
           (\<forall>Q. nz param * nz param \<le> int (length Q) \<longrightarrow>
              (\<exists>Q'. inner_step param i j Z Q = Some Q' \<and>
                 Q' ! nat (i + nz param * j) = P ! nat (i + nz param * j) \<and>
                 Q' ! nat (i + nz param * (nz param - 1))
                   = Q ! nat (i + nz param * (nz param - 1)) - Q' ! nat (i + nz param * j)))"
proof -
  let ?n = "nz param"
  let ?a = "i + ?n * j" and ?t = "i + ?n * (?n - 1)"
  have f: "?n \<le> 46340" using fits by (simp add: fits_int_def)
  from ar1_result [OF assms(1,2) fits]
  obtain Z P where run: "ar1 param Z0 P0 = Some (Z, P)" and ok: "grid_ok param Z"
    and nthP: "\<And>i j. 0 \<le> i \<and> i < ?n \<and> 0 \<le> j \<and> j < ?n \<Longrightarrow>
                    P ! nat (i + ?n * j) = entry param i j"
    by blast
  have lnj: "ln (Z ! nat j) = zlog param j" and lni: "ln (Z ! nat i) = zlog param i"
    using ln_grid [OF ok] assms by simp_all
  have val: "P ! nat ?a = interior param i j"
    using nthP [of i j] assms by (simp add: entry_def)
  have 1: "P ! nat ?a =
             Phi ((ln (Z ! nat j) - mu param - rho param * ln (Z ! nat i)) / sigma param
                    + 0.5 * zstep param / sigma param)
             - Phi ((ln (Z ! nat j) - mu param - rho param * ln (Z ! nat i)) / sigma param
                    - 0.5 * zstep param / sigma param)"
    unfolding val lnj lni Phi_diff by (simp add: interior_def upper_arg_def lower_arg_def)
  have 2: "\<exists>Q'. inner_step param i j Z Q = Some Q' \<and>
                 Q' ! nat ?a = P ! nat ?a \<and> Q' ! nat ?t = Q ! nat ?t - Q' ! nat ?a"
    if len: "?n * ?n \<le> int (length Q)" for Q
  proof -
    let ?Q' = "Q[nat ?a := interior param i j, nat ?t := Q ! nat ?t - interior param i j]"
    have s: "inner_step param i j Z Q = Some ?Q'"
      using inner_step_run [of param Z i j Q] ok assms len f by simp
    have bt: "0 \<le> ?t" "?t < ?n * ?n"
      using idx_bounds [of i ?n "?n - 1"] assms by auto
    have ba: "0 \<le> ?a" "?a < ?n * ?n"
      using idx_bounds [of i ?n j] assms by auto
    have la: "nat ?a < length Q" and lt: "nat ?t < length Q"
      using ba bt len by linarith+
    have ne: "?t \<noteq> ?a" using assms by auto
    have "?Q' ! nat ?a = interior param i j"
      using nth_update2 [OF ba(1) bt(1) la lt, of _ _ "nat ?a"] ba(1) ne by simp
    moreover have "?Q' ! nat ?t = Q ! nat ?t - interior param i j"
      using nth_update2 [OF ba(1) bt(1) la lt, of _ _ "nat ?t"] bt(1) by simp
    ultimately show ?thesis using s val by simp
  qed
  have 3: "inner_loop param i j Z Q = inner_step param i j Z Q \<bind> inner_loop param i (j + 1) Z"
    for Q
    using assms(6) by (subst inner_loop.simps) simp
  from run 1 2 3 show ?thesis by blast
qed

theorem ar1_interior_bins_witness:
  "valid scenario5 \<and> sized scenario5 (replicate 5 0) (replicate 25 0) \<and>
   fits_int scenario5 \<and>
   (0::int) \<le> 2 \<and> 2 < nz scenario5 \<and> (1::int) \<le> 3 \<and> 3 \<le> nz scenario5 - 2 \<and>
   (\<exists>Z P. ar1 scenario5 (replicate 5 0) (replicate 25 0) = Some (Z, P) \<and>
      P ! nat (2 + nz scenario5 * 3) =
        Phi ((ln (Z ! nat 3) - mu scenario5 - rho scenario5 * ln (Z ! nat 2)) / sigma scenario5
               + 0.5 * zstep scenario5 / sigma scenario5)
        - Phi ((ln (Z ! nat 3) - mu scenario5 - rho scenario5 * ln (Z ! nat 2)) / sigma scenario5
               - 0.5 * zstep scenario5 / sigma scenario5))"
proof -
  have i: "(0::int) \<le> 2" "2 < nz scenario5" "(1::int) \<le> 3" "3 \<le> nz scenario5 - 2"
    by (simp_all add: scenario5_def)
  from ar1_interior_bins [OF scenario5_valid i scenario5_fits] show ?thesis
    using scenario5_valid i scenario5_fits by blast
qed

theorem ar1_interior_bins_counterexample:
  "valid scenario_overflow \<and>
   sized scenario_overflow (replicate 46341 0) (replicate 2147488281 0) \<and>
   (0::int) \<le> 0 \<and> 0 < nz scenario_overflow \<and>
   (1::int) \<le> 1 \<and> 1 \<le> nz scenario_overflow - 2 \<and>
   ar1 scenario_overflow (replicate 46341 0) (replicate 2147488281 0) = None"
  by (intro conjI scenario_overflow_valid ar1_overflow) (simp_all add: scenario_overflow_def)

text \<open>
  Claim C4, amended. For valid parameters with \<open>nz \<le> 46340\<close> and every origin state
  \<open>i\<close>, the bottom bin is
  \<open>P[i + nz*0] = 0.5 + 0.5 * erf (arg / sqrt 2)\<close> with
  \<open>arg = (zmin - mu - rho * log Z[i]) / sigma + 0.5 * zstep / sigma\<close>; the outer loop at
  \<open>i\<close> runs the head of its body, then the inner loop from \<open>j = 1\<close>, and goes on at
  \<open>i + 1\<close>; and the head, run at \<open>i\<close> on any matrix \<open>Q\<close> of sufficient size, stores
  this bottom bin and sets the top bin \<open>Q[i + nz*(nz-1)]\<close> to one minus the bottom bin.
\<close>

theorem ar1_bottom_bin:
  assumes "valid param" "sized param Z0 P0" "0 \<le> i" "i < nz param"
    and fits: "fits_int param"
  shows "\<exists>Z P. ar1 param Z0 P0 = Some (Z, P) \<and>
           P ! nat (i + nz param * 0) =
             0.5 + 0.5 * erf (((zmin param - mu param - rho param * ln (Z ! nat i)) / sigma param
                                 + 0.5 * zstep param / sigma param) / sqrt 2) \<and>
           (\<forall>Q. outer_loop param i Z Q
                  = row_init param i Z Q \<bind>
                      (\<lambda>Q'. inner_loop param i 1 Z Q' \<bind> outer_loop param (i + 1) Z)) \<and>
           (\<forall>Q. nz param * nz param \<le> int (length Q) \<longrightarrow>
              (\<exists>Q'. row_init param i Z Q = Some Q' \<and>
                 Q' ! nat (i + nz param * 0) = P ! nat (i + nz param * 0) \<and>
                 Q' ! nat (i + nz param * (nz param - 1)) = 1 - Q' ! nat (i + nz param * 0)))"
proof -
  let ?n = "nz param"
  let ?t = "i + ?n * (?n - 1)"
  have n: "3 \<le> ?n" using assms(1) by (simp add: valid_def)
  have f: "?n \<le> 46340" using fits by (simp add: fits_int_def)
  from ar1_result [OF assms(1,2) fits]
  obtain Z P where run: "ar1 param Z0 P0 = Some (Z, P)" and ok: "grid_ok param Z"
    and nthP: "\<And>i j. 0 \<le> i \<and> i < ?n \<and> 0 \<le> j \<and> j < ?n \<Longrightarrow>
                    P ! nat (i + ?n * j) = entry param i j"
    by blast
  have lni: "ln (Z ! nat i) = zlog param i"
    using ln_grid [OF ok] assms by simp
  have val: "P ! nat (i + ?n * 0) = bottom param i"
    using nthP [of i 0] assms n by (simp add: entry_def)
  have 1: "P ! nat (i + ?n * 0) =
             0.5 + 0.5 * erf (((zmin param - mu param - rho param * ln (Z ! nat i)) / sigma param
                                 + 0.5 * zstep param / sigma param) / sqrt 2)"
    unfolding val lni by (simp add: bottom_def upper_arg_def zlog_def)
  have 2: "\<exists>Q'. row_init param i Z Q = Some Q' \<and>
                 Q' ! nat (i + ?n * 0) = P ! nat (i + ?n * 0) \<and>
                 Q' ! nat ?t = 1 - Q' ! nat (i + ?n * 0)"
    if len: "?n * ?n \<le> int (length Q)" for Q
  proof -
    let ?Q' = "Q[nat i := bottom param i, nat ?t := 1 - bottom param i]"
    have s: "row_init param i Z Q = Some ?Q'"
      using row_init_run [OF ok n assms(3,4) len f] .
    have bt: "0 \<le> ?t" "?t < ?n * ?n"
      using idx_bounds [of i ?n "?n - 1"] assms n by auto
    have bi: "i < ?n * ?n" using idx_bounds [of i ?n 0] assms n by simp
    have li: "nat i < length Q" and lt: "nat ?t < length Q"
      using bi bt len assms(3) by linarith+
    have ne: "?t \<noteq> i" using assms n by auto
    have "?Q' ! nat i = bottom param i"
      using nth_update2 [OF assms(3) bt(1) li lt, of _ _ "nat i"] assms(3) ne by simp
    moreover have "?Q' ! nat ?t = 1 - bottom param i"
      using nth_update2 [OF assms(3) bt(1) li lt, of _ _ "nat ?t"] bt(1) by simp
    ultimately show ?thesis using s val by simp
  qed
  have 3: "outer_loop param i Z Q
             = row_init param i Z Q \<bind>
                 (\<lambda>Q'. inner_loop param i 1 Z Q' \<bind> outer_loop param (i + 1) Z)" for Q
    using assms(4) by (subst outer_loop.simps) simp
  from run 1 2 3 show ?thesis by blast
qed

theorem ar1_bottom_bin_witness:
  "valid scenario5 \<and> sized scenario5 (replicate 5 0) (replicate 25 0) \<and>
   fits_int scenario5 \<and>
   (0::int) \<le> 2 \<and> 2 < nz scenario5 \<and>
   (\<exists>Z P. ar1 scenario5 (replicate 5 0) (replicate 25 0) = Some (Z, P) \<and>
      P ! nat (2 + nz scenario5 * 0) =
        0.5 + 0.5 * erf (((zmin scenario5 - mu scenario5 - rho scenario5 * ln (Z ! nat 2))
                             / sigma scenario5
                           + 0.5 * zstep scenario5 / sigma scenario5) / sqrt 2))"
proof -
  have i: "(0::int) \<le> 2" "2 < nz scenario5" by (simp_all add: scenario5_def)
  from ar1_bottom_bin [OF scenario5_valid i scenario5_fits] show ?thesis
    using scenario5_valid i scenario5_fits by blast
qed

theorem ar1_bottom_bin_counterexample:
  "valid scenario_overflow \<and>
   sized scenario_overflow (replicate 46341 0) (replicate 2147488281 0) \<and>
   (0::int) \<le> 41708 \<and> 41708 < nz scenario_overflow \<and>
   ar1 scenario_overflow (replicate 46341 0) (replicate 2147488281 0) = None"
  by (intro conjI scenario_overflow_valid ar1_overflow) (simp_all add: scenario_overflow_def)

text \<open>
  Claim C6, amended. For valid parameters with \<open>nz \<le> 46340\<close> and all \<open>i\<close>, \<open>j\<close> in
  \<open>0..nz-1\<close>, the entry
  \<open>P[i + nz*j]\<close> lies between \<open>0\<close> and \<open>1\<close>; this includes the top bin, which
  telescopes to the mass above the upper edge of bin \<open>nz - 2\<close>.
\<close>

theorem ar1_probabilities:
  assumes "valid param" "sized param Z0 P0" "0 \<le> i" "i < nz param" "0 \<le> j" "j < nz param"
    and fits: "fits_int param"
  shows "\<exists>Z P. ar1 param Z0 P0 = Some (Z, P) \<and>
           0 \<le> P ! nat (i + nz param * j) \<and> P ! nat (i + nz param * j) \<le> 1"
proof -
  from ar1_result [OF assms(1,2) fits]
  obtain Z P where run: "ar1 param Z0 P0 = Some (Z, P)"
    and nthP: "\<And>i j. 0 \<le> i \<and> i < nz param \<and> 0 \<le> j \<and> j < nz param \<Longrightarrow>
                    P ! nat (i + nz param * j) = entry param i j"
    by blast
  have "P ! nat (i + nz param * j) = entry param i j" using nthP [of i j] assms by simp
  then show ?thesis using run entry_bounds [OF assms(1), of i j] by simp
qed

theorem ar1_probabilities_witness:
  "valid scenario5 \<and> sized scenario5 (replicate 5 0) (replicate 25 0) \<and>
   fits_int scenario5 \<and>
   (0::int) \<le> 2 \<and> 2 < nz scenario5 \<and> (0::int) \<le> 4 \<and> 4 < nz scenario5 \<and>
   (\<exists>Z P. ar1 scenario5 (replicate 5 0) (replicate 25 0) = Some (Z, P) \<and>
      0 \<le> P ! nat (2 + nz scenario5 * 4) \<and> P ! nat (2 + nz scenario5 * 4) \<le> 1)"
proof -
  have i: "(0::int) \<le> 2" "2 < nz scenario5" "(0::int) \<le> 4" "4 < nz scenario5"
    by (simp_all add: scenario5_def)
  from ar1_probabilities [OF scenario5_valid i scenario5_fits] show ?thesis
    using scenario5_valid i scenario5_fits by blast
qed

theorem ar1_probabilities_counterexample:
  "valid scenario_overflow \<and>
   sized scenario_overflow (replicate 46341 0) (replicate 2147488281 0) \<and>
   (0::int) \<le> 0 \<and> 0 < nz scenario_overflow \<and>
   (0::int) \<le> 46340 \<and> 46340 < nz scenario_overflow \<and>
   ar1 scenario_overflow (replicate 46341 0) (replicate 2147488281 0) = None"
  by (intro conjI scenario_overflow_valid ar1_overflow) (simp_all add: scenario_overflow_def)

text \<open>
  Claim C7, amended. For valid parameters with \<open>nz \<le> 46340\<close>, the parallel formulation
  of the specification, which computes the entries of the columns \<open>0..nz-2\<close> independently and the top bin of each
  row as one minus their sum, yields the same matrix as the running subtraction of
  \<open>ar1\<close>.
\<close>

theorem ar1_parallel_equiv:
  assumes "valid param" "sized param Z0 P0"
    and fits: "fits_int param"
  shows "\<exists>Z P. ar1 param Z0 P0 = Some (Z, P) \<and> take (nat (nz param * nz param)) P = ar1_parallel param"
proof -
  let ?n = "nz param"
  have n: "3 \<le> ?n" using assms(1) by (simp add: valid_def)
  have f: "?n \<le> 46340" using fits by (simp add: fits_int_def)
  from ar1_run [of param Z0 P0] n assms(2) f
  obtain Z P where run: "ar1 param Z0 P0 = Some (Z, P)"
    and len: "length P = length P0"
    and nthP: "\<And>k. P ! k = (if int k < ?n * ?n
                  then entry param (int k mod ?n) (int k div ?n) else P0 ! k)"
    unfolding sized_def by blast
  have "?n * ?n \<le> int (length P)" using assms(2) len by (simp add: sized_def)
  then have lp: "nat (?n * ?n) \<le> length P" by linarith
  have "take (nat (?n * ?n)) P = ar1_parallel param"
  proof (rule nth_equalityI)
    show "length (take (nat (?n * ?n)) P) = length (ar1_parallel param)"
      using lp by (simp add: ar1_parallel_def)
    fix k assume "k < length (take (nat (?n * ?n)) P)"
    then have k: "k < nat (?n * ?n)" by simp
    then have k': "int k < ?n * ?n" by linarith
    have d: "0 \<le> int k div ?n" using n by (simp add: pos_imp_zdiv_nonneg_iff)
    have "int k div ?n < ?n"
      using div_less_iff_square [of ?n "int k"] n k' by simp
    then have "parallel_entry param (int k mod ?n) (int k div ?n)
                 = entry param (int k mod ?n) (int k div ?n)"
      using parallel_entry_eq [OF n d] by simp
    then show "take (nat (?n * ?n)) P ! k = ar1_parallel param ! k"
      using k k' nthP [of k] by (simp add: ar1_parallel_def)
  qed
  then show ?thesis using run by blast
qed

theorem ar1_parallel_equiv_witness:
  "valid scenario5 \<and> sized scenario5 (replicate 5 0) (replicate 25 0) \<and>
   fits_int scenario5 \<and>
   (\<exists>Z P. ar1 scenario5 (replicate 5 0) (replicate 25 0) = Some (Z, P) \<and>
      take (nat (nz scenario5 * nz scenario5)) P = ar1_parallel scenario5)"
  using ar1_parallel_equiv [OF scenario5_valid scenario5_fits] scenario5_valid scenario5_fits
  by blast

theorem ar1_parallel_equiv_counterexample:
  "valid scenario_overflow \<and>
   sized scenario_overflow (replicate 46341 0) (replicate 2147488281 0) \<and>
   ar1 scenario_overflow (replicate 46341 0) (replicate 2147488281 0) = None"
  by (intro conjI scenario_overflow_valid ar1_overflow)

text \<open>
  Claim C8, amended. For valid parameters with \<open>nz \<le> 46340\<close> and \<open>mu = 0\<close>, the grid is
  positive and symmetric in log-space, \<open>log Z[i] = - log Z[nz-1-i]\<close>, and the matrix is symmetric under the reversal of rows
  and columns together, \<open>P[i + nz*j] = P[(nz-1-i) + nz*(nz-1-j)]\<close>.
\<close>

theorem ar1_symmetry:
  assumes "valid param" "sized param Z0 P0" "mu param = 0"
    "0 \<le> i" "i < nz param" "0 \<le> j" "j < nz param"
    and fits: "fits_int param"
  shows "\<exists>Z P. ar1 param Z0 P0 = Some (Z, P) \<and>
           0 < Z ! nat i \<and> 0 < Z ! nat (nz param - 1 - i) \<and>
           ln (Z ! nat i) = - ln (Z ! nat (nz param - 1 - i)) \<and>
           P ! nat (i + nz param * j) = P ! nat ((nz param - 1 - i) + nz param * (nz param - 1 - j))"
proof -
  let ?n = "nz param"
  from ar1_result [OF assms(1,2) fits]
  obtain Z P where run: "ar1 param Z0 P0 = Some (Z, P)" and ok: "grid_ok param Z"
    and nthP: "\<And>i j. 0 \<le> i \<and> i < ?n \<and> 0 \<le> j \<and> j < ?n \<Longrightarrow>
                    P ! nat (i + ?n * j) = entry param i j"
    by blast
  have "ln (Z ! nat i) = zlog param i" "ln (Z ! nat (?n - 1 - i)) = zlog param (?n - 1 - i)"
    using ln_grid [OF ok, of i] ln_grid [OF ok, of "?n - 1 - i"] assms by simp_all
  then have 1: "ln (Z ! nat i) = - ln (Z ! nat (?n - 1 - i))"
    using zlog_reflect [OF assms(1,3), of i] by simp
  have "P ! nat (i + ?n * j) = entry param i j" using nthP [of i j] assms by simp
  moreover have "P ! nat ((?n - 1 - i) + ?n * (?n - 1 - j)) = entry param (?n - 1 - i) (?n - 1 - j)"
    using nthP [of "?n - 1 - i" "?n - 1 - j"] assms by simp
  ultimately have 2: "P ! nat (i + ?n * j) = P ! nat ((?n - 1 - i) + ?n * (?n - 1 - j))"
    using entry_reflect [OF assms(1,3,6,7), of i] by simp
  have 3: "0 < Z ! nat i" "0 < Z ! nat (?n - 1 - i)"
    using ok assms(4,5) by (simp_all add: grid_ok_def)
  from run 1 2 3 show ?thesis by blast
qed

theorem ar1_symmetry_witness:
  "valid scenario5 \<and> sized scenario5 (replicate 5 0) (replicate 25 0) \<and> mu scenario5 = 0 \<and>
   fits_int scenario5 \<and>
   (0::int) \<le> 1 \<and> 1 < nz scenario5 \<and> (0::int) \<le> 4 \<and> 4 < nz scenario5 \<and>
   (\<exists>Z P. ar1 scenario5 (replicate 5 0) (replicate 25 0) = Some (Z, P) \<and>
      0 < Z ! nat 1 \<and>
      ln (Z ! nat 1) = - ln (Z ! nat (nz scenario5 - 1 - 1)) \<and>
      P ! nat (1 + nz scenario5 * 4)
        = P ! nat ((nz scenario5 - 1 - 1) + nz scenario5 * (nz scenario5 - 1 - 4)))"
proof -
  have m: "mu scenario5 = 0" by (simp add: scenario5_def)
  have i: "(0::int) \<le> 1" "1 < nz scenario5" "(0::int) \<le> 4" "4 < nz scenario5"
    by (simp_all add: scenario5_def)
  from ar1_symmetry [OF scenario5_valid m i scenario5_fits] show ?thesis
    using scenario5_valid m i scenario5_fits by blast
qed

theorem ar1_symmetry_counterexample:
  "valid scenario_overflow \<and>
   sized scenario_overflow (replicate 46341 0) (replicate 2147488281 0) \<and>
   mu scenario_overflow = 0 \<and>
   (0::int) \<le> 2 \<and> 2 < nz scenario_overflow \<and>
   (0::int) \<le> 3 \<and> 3 < nz scenario_overflow \<and>
   ar1 scenario_overflow (replicate 46341 0) (replicate 2147488281 0) = None"
  by (intro conjI scenario_overflow_valid ar1_overflow) (simp_all add: scenario_overflow_def)

text \<open>
  Claim C10, amended. For vectors of sufficient size and any \<open>nz\<close> with
  \<open>INT_MIN < nz \<le> 46340\<close>, a call of \<open>ar1\<close> returns with the parameters and everything else in the
  caller's state as they were, with vectors of the same lengths, and with every element of
  \<open>Z\<close> from index \<open>nz\<close> on and every element of \<open>P\<close> from index \<open>nz * nz\<close> on at its
  prior value.
\<close>

theorem ar1_frame:
  assumes "sized (m_param s) (m_Z s) (m_P s)" "fits_int (m_param s)"
  shows "\<exists>s'. ar1_call s = Some s' \<and>
           m_param s' = m_param s \<and> memory.more s' = memory.more s \<and>
           length (m_Z s') = length (m_Z s) \<and> length (m_P s') = length (m_P s) \<and>
           (\<forall>k. nz (m_param s) \<le> int k \<longrightarrow> m_Z s' ! k = m_Z s ! k) \<and>
           (\<forall>k. nz (m_param s) * nz (m_param s) \<le> int k \<longrightarrow> m_P s' ! k = m_P s ! k)"
proof -
  from ar1_preserves [OF assms]
  obtain Z P where run: "ar1 (m_param s) (m_Z s) (m_P s) = Some (Z, P)"
    and len: "length Z = length (m_Z s)" "length P = length (m_P s)"
    and fz: "\<forall>k. nz (m_param s) \<le> int k \<longrightarrow> Z ! k = m_Z s ! k"
    and fp: "\<forall>k. nz (m_param s) * nz (m_param s) \<le> int k \<longrightarrow> P ! k = m_P s ! k"
    by blast
  have "ar1_call s = Some (s\<lparr>m_Z := Z, m_P := P\<rparr>)" using run by (simp add: ar1_call_def)
  then show ?thesis using len fz fp by simp
qed

theorem ar1_frame_witness:
  "sized scenario3 [1, 2, 3, 4] [0, 0, 0, 0, 0, 0, 0, 0, 0, 5, 6] \<and> fits_int scenario3 \<and>
   (\<exists>s'. ar1_call \<lparr>m_param = scenario3, m_Z = [1, 2, 3, 4],
                      m_P = [0, 0, 0, 0, 0, 0, 0, 0, 0, 5, 6]\<rparr> = Some s' \<and>
      m_param s' = scenario3 \<and>
      length (m_Z s') = 4 \<and> length (m_P s') = 11 \<and>
      m_Z s' ! 3 = 4 \<and> m_P s' ! 9 = 5 \<and> m_P s' ! 10 = 6)"
proof -
  let ?s = "\<lparr>m_param = scenario3, m_Z = [1, 2, 3, 4],
              m_P = [0, 0, 0, 0, 0, 0, 0, 0, 0, 5, 6]\<rparr>"
  have sz: "sized (m_param ?s) (m_Z ?s) (m_P ?s)"
    by (simp add: sized_def scenario3_def)
  have ft: "fits_int (m_param ?s)" using scenario3_fits by simp
  from ar1_frame [OF sz ft]
  obtain s' where run: "ar1_call ?s = Some s'"
    and par: "m_param s' = scenario3"
    and len: "length (m_Z s') = 4" "length (m_P s') = 11"
    and fz: "\<And>k. nz scenario3 \<le> int k \<Longrightarrow> m_Z s' ! k = [1, 2, 3, 4] ! k"
    and fp: "\<And>k. nz scenario3 * nz scenario3 \<le> int k \<Longrightarrow>
                m_P s' ! k = [0, 0, 0, 0, 0, 0, 0, 0, 0, 5, 6] ! k"
    by auto
  have "m_Z s' ! 3 = 4" using fz [of 3] by (simp add: scenario3_def)
  moreover have "m_P s' ! 9 = 5" using fp [of 9] by (simp add: scenario3_def)
  moreover have "m_P s' ! 10 = 6" using fp [of 10] by (simp add: scenario3_def)
  ultimately show ?thesis using sz scenario3_fits run par len by simp
qed

theorem ar1_frame_counterexample:
  "sized scenario_overflow (replicate 46341 0) (replicate 2147488281 0) \<and>
   ar1_call \<lparr>m_param = scenario_overflow, m_Z = replicate 46341 0,
              m_P = replicate 2147488281 0\<rparr> = None"
  using scenario_overflow_valid(2) by (simp add: ar1_call_def ar1_overflow)

end
